theory Spec2Isabelle
  imports Complex_Main "HOL-Library.AList" "HOL-Library.Log_Nat" "HOL-Library.Code_Target_Nat"
begin

section \<open>The geometry library as an interface\<close>

text \<open>
  The program is a thin layer over a polygon library (Shapely) and over
  \<^verbatim>\<open>numpy.arange\<close>. The library calls the program makes are collected in a record;
  every function of the program that calls the library takes that record as an argument,
  so that a property proved for an arbitrary record holds whatever the library computes.
  Coordinates, angles and step sizes are real numbers (the floats of the program,
  read exactly). What the library computes from them is the library's affair; the
  arithmetic of \<^verbatim>\<open>numpy.arange\<close>, which decides how many anchors are visited, is
  modelled with the rounding of double precision.

  \<^item> \<open>poly_contains G a b\<close> is \<^verbatim>\<open>a.contains(b)\<close>;
  \<^item> \<open>poly_intersects G a b\<close> is \<^verbatim>\<open>a.intersects(b)\<close>;
  \<^item> \<open>affinity_rotate G s angle\<close> is
    \<^verbatim>\<open>rotate(s, angle, origin='centroid', use_radians=False)\<close>;
  \<^item> \<open>affinity_translate G s x y\<close> is \<^verbatim>\<open>translate(s, xoff=x, yoff=y)\<close>;
  \<^item> \<open>poly_bounds G a\<close> is \<^verbatim>\<open>a.bounds\<close>, the tuple (x_min, y_min, x_max, y_max);
    \<open>None\<close> stands for the tuple of NaNs of an empty geometry;
  \<^item> \<open>poly_area G a\<close> is \<^verbatim>\<open>a.area\<close>;
  \<^item> \<open>Polygon G pts\<close> is the constructor \<^verbatim>\<open>Polygon(pts)\<close>.
\<close>

type_synonym point = "real \<times> real"

record 'p geometry =
  poly_contains :: "'p \<Rightarrow> 'p \<Rightarrow> bool"
  poly_intersects :: "'p \<Rightarrow> 'p \<Rightarrow> bool"
  affinity_rotate :: "'p \<Rightarrow> real \<Rightarrow> 'p"
  affinity_translate :: "'p \<Rightarrow> real \<Rightarrow> real \<Rightarrow> 'p"
  poly_bounds :: "'p \<Rightarrow> (real \<times> real \<times> real \<times> real) option"
  poly_area :: "'p \<Rightarrow> real"
  Polygon :: "point list \<Rightarrow> 'p"

datatype error =
  InsufficientPointsError   \<comment> \<open>the error dialog "At least 3 points must be selected!", then return\<close>
  | QhullError              \<comment> \<open>raised by the convex hull computation\<close>
  | ArangeError             \<comment> \<open>raised in numpy.arange: zero step, range too long, NaN limits\<close>
  | ZeroDivisionError       \<comment> \<open>raised by the division by a zero container area\<close>

section \<open>Double precision and numpy.arange\<close>

text \<open>
  The number of elements of \<^verbatim>\<open>np.arange(start, stop, step)\<close> is computed in double
  precision, and it decides which anchors the program visits. So the rounding of a
  double-precision operation is written out: \<open>float_round x\<close> is the double nearest to
  the real number \<open>x\<close>, a tie going to the double with the even significand (IEEE 754
  binary64: 53 bits of significand, -1022 the exponent of the smallest normal number,
  the doubles below it spaced by \<open>2 powi (- 1074)\<close>). For a positive \<open>x\<close>, \<open>binade x\<close> is
  the exponent \<open>e\<close> with \<open>2 powi e \<le> x < 2 powi (e + 1)\<close>, and \<open>ulp x\<close> the spacing of the
  doubles there.
  The exponent is not bounded above in \<open>float_round\<close>; \<open>overflows r\<close> tells that the
  rounded value \<open>r\<close> lies beyond the largest double, where the operation gives an
  infinity.
\<close>

definition round_half_even :: "real \<Rightarrow> int" where
  "round_half_even q =
     (let f = \<lfloor>q\<rfloor>; d = q - of_int f
      in if d < 1 / 2 then f else if 1 / 2 < d then f + 1 else if even f then f else f + 1)"

definition binade :: "real \<Rightarrow> int" where
  "binade x = (if 1 \<le> x then bitlen \<lfloor>x\<rfloor> - 1 else - bitlen (\<lceil>1 / x\<rceil> - 1))"

definition ulp :: "real \<Rightarrow> real" where
  "ulp x = 2 powi (max (binade x) (- 1022) - 52)"

definition round_positive :: "real \<Rightarrow> real" where
  "round_positive x = of_int (round_half_even (x / ulp x)) * ulp x"

definition float_round :: "real \<Rightarrow> real" where
  "float_round x = (if x = 0 then 0 else sgn x * round_positive \<bar>x\<bar>)"

definition overflows :: "real \<Rightarrow> bool" where
  "overflows r = (2 ^ 1024 \<le> \<bar>r\<bar>)"

text \<open>
  \<^verbatim>\<open>np.arange(start, stop, step)\<close> for floats. numpy computes \<^verbatim>\<open>stop - start\<close>, divides it
  by \<^verbatim>\<open>step\<close> (a zero step raises) and takes the ceiling of the quotient as the length;
  a quotient that was rounded to zero from a difference that is not zero gives the
  length 1, or 0 when it is negative. The call raises when the length is no 64-bit
  integer (so for an infinite quotient) and when the array cannot be allocated:
  \<open>max_size\<close> is the largest number of doubles an array can have on the machine that runs
  the program, and \<open>max_doubles\<close> the bound numpy itself enforces on every machine (a
  length of exactly \<open>2 ^ 63\<close>, whose conversion to a 64-bit integer C leaves undefined, is
  treated like every longer one). A length that is not positive gives the empty array.
  The elements are \<^verbatim>\<open>start\<close>, \<^verbatim>\<open>start + step\<close>, and from the third on
  \<^verbatim>\<open>start + i * delta\<close> where \<^verbatim>\<open>delta\<close> is \<^verbatim>\<open>(start + step) - start\<close>, every operation
  rounded (an element that would round to an infinity is outside the model).
\<close>

definition max_doubles :: nat where
  "max_doubles = (2 ^ 63 - 1) div 8"

definition arange_item :: "real \<Rightarrow> real \<Rightarrow> nat \<Rightarrow> real" where
  "arange_item start step i =
     (if i = 0 then start
      else if i = 1 then float_round (start + step)
      else float_round (start +
             float_round (float_round (real i) * float_round (float_round (start + step) - start))))"

definition arange :: "nat \<Rightarrow> real \<Rightarrow> real \<Rightarrow> real \<Rightarrow> error + real list" where
  "arange max_size start stop step =
     (if step = 0 then Inl ArangeError
      else
        let delta = float_round (stop - start);
            val = float_round (delta / step);
            len = (if val = 0 \<and> delta \<noteq> 0 then (if delta / step < 0 then 0 else 1)
                   else \<lceil>val\<rceil>)
        in if overflows delta \<or> overflows val \<or> len < - (2 ^ 63) \<or>
              int (min max_size max_doubles) < len
           then Inl ArangeError
           else Inr (map (arange_item start step) [0 ..< nat len]))"

section \<open>Shape operations\<close>

text \<open>
  \<^verbatim>\<open>create_rotated_shapes\<close>: the dictionary is an association list in insertion order;
  assigning to a key that is already present replaces its value and keeps its position
  (\<open>AList.update\<close>), as a Python dict does.
\<close>

definition create_rotated_shapes :: "'p geometry \<Rightarrow> 'p \<Rightarrow> real list \<Rightarrow> (real \<times> 'p) list" where
  "create_rotated_shapes G shape angles =
     fold (\<lambda>angle rotated_shapes. AList.update angle (affinity_rotate G shape angle) rotated_shapes)
       angles []"

text \<open>The loop of \<^verbatim>\<open>can_place\<close> over the placed shapes, leaving at the first intersection.\<close>

fun no_intersection :: "'p geometry \<Rightarrow> 'p \<Rightarrow> 'p list \<Rightarrow> bool" where
  "no_intersection G candidate [] = True"
| "no_intersection G candidate (existing_shape # rest) =
     (if poly_intersects G candidate existing_shape then False
      else no_intersection G candidate rest)"

definition can_place :: "'p geometry \<Rightarrow> 'p \<Rightarrow> 'p list \<Rightarrow> 'p \<Rightarrow> bool" where
  "can_place G candidate placed_shapes bounds =
     (if \<not> poly_contains G bounds candidate then False
      else no_intersection G candidate placed_shapes)"

text \<open>
  The innermost loop of \<^verbatim>\<open>place_shapes\<close>, over the items of the dictionary at one anchor:
  the first candidate that can be placed is appended and the loop is left.
\<close>

fun try_angles :: "'p geometry \<Rightarrow> 'p \<Rightarrow> real \<Rightarrow> real \<Rightarrow> (real \<times> 'p) list \<Rightarrow> 'p list \<Rightarrow> 'p list" where
  "try_angles G container x y [] placed_shapes = placed_shapes"
| "try_angles G container x y ((angle, rotated) # rest) placed_shapes =
     (let candidate = affinity_translate G rotated x y
      in if can_place G candidate placed_shapes container
         then placed_shapes @ [candidate]
         else try_angles G container x y rest placed_shapes)"

text \<open>
  The body of the loop over \<open>x\<close> in \<^verbatim>\<open>place_shapes\<close>: at every \<open>x\<close> the range of the
  \<open>y\<close> is built anew, which raises when it cannot be built, and the loops over \<open>y\<close> and
  over the items of the dictionary run. With no \<open>x\<close> to visit, the range of the \<open>y\<close> is
  never built.
\<close>

fun place_columns ::
  "nat \<Rightarrow> 'p geometry \<Rightarrow> 'p \<Rightarrow> (real \<times> 'p) list \<Rightarrow> real \<Rightarrow> real \<Rightarrow> real \<Rightarrow> real list
     \<Rightarrow> 'p list \<Rightarrow> error + 'p list" where
  "place_columns max_size G container rotated_shapes y_min y_max grid_step [] placed_shapes =
     Inr placed_shapes"
| "place_columns max_size G container rotated_shapes y_min y_max grid_step (x # xs) placed_shapes =
     (case arange max_size y_min y_max grid_step of
        Inl e \<Rightarrow> Inl e
      | Inr ys \<Rightarrow>
          place_columns max_size G container rotated_shapes y_min y_max grid_step xs
            (fold (\<lambda>y. try_angles G container x y rotated_shapes) ys placed_shapes))"

definition place_shapes ::
  "nat \<Rightarrow> 'p geometry \<Rightarrow> 'p \<Rightarrow> 'p \<Rightarrow> real list \<Rightarrow> real \<Rightarrow> error + 'p list" where
  "place_shapes max_size G container shape angles grid_step =
     (case poly_bounds G container of
        None \<Rightarrow> Inl ArangeError
      | Some (x_min, y_min, x_max, y_max) \<Rightarrow>
          (let rotated_shapes = create_rotated_shapes G shape angles in
           case arange max_size x_min x_max grid_step of
             Inl e \<Rightarrow> Inl e
           | Inr xs \<Rightarrow>
               place_columns max_size G container rotated_shapes y_min y_max grid_step xs []))"

text \<open>
  The anchors the two outer loops visit, in the order they are visited; an error when one
  of the two ranges cannot be built.
\<close>

definition anchors ::
  "nat \<Rightarrow> real \<times> real \<times> real \<times> real \<Rightarrow> real \<Rightarrow> error + (real \<times> real) list" where
  "anchors max_size b grid_step =
     (case b of (x_min, y_min, x_max, y_max) \<Rightarrow>
        (case arange max_size x_min x_max grid_step of
           Inl e \<Rightarrow> Inl e
         | Inr xs \<Rightarrow>
             if xs = [] then Inr []
             else (case arange max_size y_min y_max grid_step of
                     Inl e \<Rightarrow> Inl e
                   | Inr ys \<Rightarrow> Inr (concat (map (\<lambda>x. map (\<lambda>y. (x, y)) ys) xs)))))"

section \<open>Displaying the cutting area\<close>

text \<open>
  What \<^verbatim>\<open>draw_full_convex_hull\<close> draws: the container, the placed shapes and the
  efficiency figure. The convex hull computation (\<^verbatim>\<open>scipy.spatial.ConvexHull\<close>) is the
  parameter \<open>ConvexHull\<close>: it gives the hull points in order, or fails. \<open>max_size\<close> is
  the largest array of the machine, as in \<open>arange\<close>.
\<close>

record 'p layout =
  layout_container :: 'p
  layout_placed :: "'p list"
  utilization_percentage :: real

definition utilization :: "'p geometry \<Rightarrow> 'p list \<Rightarrow> 'p \<Rightarrow> error + real" where
  "utilization G placed_shapes container =
     (let total_shape_area = sum_list (map (poly_area G) placed_shapes);
          total_cutting_area = poly_area G container
      in if total_cutting_area = 0 then Inl ZeroDivisionError
         else Inr ((total_shape_area / total_cutting_area) * 100))"

definition draw_full_convex_hull ::
  "nat \<Rightarrow> 'p geometry \<Rightarrow> (point list \<Rightarrow> point list option) \<Rightarrow> point list \<Rightarrow> real \<Rightarrow> real
     \<Rightarrow> error + 'p layout" where
  "draw_full_convex_hull max_size G ConvexHull points x_limit y_limit =
     (if length points < 3 then Inl InsufficientPointsError
      else case ConvexHull points of
        None \<Rightarrow> Inl QhullError
      | Some hull_points \<Rightarrow>
          (let original_shape = Polygon G hull_points;
               container = Polygon G [(0, 0), (x_limit, 0), (x_limit, y_limit), (0, y_limit)];
               angles = [0, 90, 180, 270]
           in case place_shapes max_size G container original_shape angles 10 of
                Inl e \<Rightarrow> Inl e
              | Inr placed_shapes \<Rightarrow>
                  (case utilization G placed_shapes container of
                     Inl e \<Rightarrow> Inl e
                   | Inr u \<Rightarrow>
                       Inr \<lparr>layout_container = container, layout_placed = placed_shapes,
                            utilization_percentage = u\<rparr>)))"

section \<open>A model of the library for convex polygons\<close>

text \<open>
  The library is not part of the repository. For the scenarios that need numbers, its
  documented behaviour is written out here for the polygons the program builds: convex
  polygons of positive area (the convex hull of the chosen points, its rotations and
  translations, and the rectangular container), given by the list of their vertices in
  boundary order, the closing vertex not repeated.
\<close>

type_synonym polygon = "point list"

definition edges :: "polygon \<Rightarrow> (point \<times> point) list" where
  "edges p = zip p (rotate1 p)"

text \<open>\<open>side p q v\<close> is positive when \<open>v\<close> lies to the left of the line from \<open>p\<close> to \<open>q\<close>,
  negative to the right, zero on the line.\<close>

definition side :: "point \<Rightarrow> point \<Rightarrow> point \<Rightarrow> real" where
  "side p q v = (fst q - fst p) * (snd v - snd p) - (snd q - snd p) * (fst v - fst p)"

text \<open>
  \<^verbatim>\<open>a.intersects(b)\<close>: the two polygons share a point, be it only a boundary point. Two
  convex polygons share no point exactly when the line through an edge of one of them
  has that polygon on one side and the other polygon strictly on the other side.
\<close>

definition separating_edge :: "polygon \<Rightarrow> polygon \<Rightarrow> bool" where
  "separating_edge a b =
     list_ex (\<lambda>(p, q).
        (list_all (\<lambda>v. 0 \<le> side p q v) a \<and> list_all (\<lambda>v. side p q v < 0) b) \<or>
        (list_all (\<lambda>v. side p q v \<le> 0) a \<and> list_all (\<lambda>v. 0 < side p q v) b)) (edges a)"

definition shapely_intersects :: "polygon \<Rightarrow> polygon \<Rightarrow> bool" where
  "shapely_intersects a b =
     (a \<noteq> [] \<and> b \<noteq> [] \<and> \<not> separating_edge a b \<and> \<not> separating_edge b a)"

text \<open>
  \<^verbatim>\<open>a.contains(b)\<close>: no point of \<open>b\<close> lies outside \<open>a\<close> (the boundary of \<open>a\<close> counts as
  inside). For a convex \<open>a\<close>: every vertex of \<open>b\<close> is on the inner side of, or on, every
  edge line of \<open>a\<close>, whichever way round the vertices of \<open>a\<close> are listed.
\<close>

definition shapely_contains :: "polygon \<Rightarrow> polygon \<Rightarrow> bool" where
  "shapely_contains a b =
     (b \<noteq> [] \<and>
      (list_all (\<lambda>v. list_all (\<lambda>(p, q). 0 \<le> side p q v) (edges a)) b \<or>
       list_all (\<lambda>v. list_all (\<lambda>(p, q). side p q v \<le> 0) (edges a)) b))"

definition shapely_translate :: "polygon \<Rightarrow> real \<Rightarrow> real \<Rightarrow> polygon" where
  "shapely_translate p xoff yoff = map (\<lambda>(x, y). (x + xoff, y + yoff)) p"

fun shapely_bounds :: "polygon \<Rightarrow> (real \<times> real \<times> real \<times> real) option" where
  "shapely_bounds [] = None"
| "shapely_bounds (v # vs) =
     Some (fold min (map fst vs) (fst v), fold min (map snd vs) (snd v),
           fold max (map fst vs) (fst v), fold max (map snd vs) (snd v))"

definition signed_area :: "polygon \<Rightarrow> real" where
  "signed_area p = (\<Sum>(u, v) \<leftarrow> edges p. fst u * snd v - fst v * snd u) / 2"

definition shapely_area :: "polygon \<Rightarrow> real" where
  "shapely_area p = \<bar>signed_area p\<bar>"

definition segment_length :: "point \<Rightarrow> point \<Rightarrow> real" where
  "segment_length u v = sqrt ((fst v - fst u)\<^sup>2 + (snd v - snd u)\<^sup>2)"

text \<open>
  The centroid: weighted by area; for a polygon of area zero, the centroid of its
  boundary segments weighted by length; for a polygon of one repeated point, that point.
  (The centroid of an empty polygon is never asked for: rotation returns it as it is.)
\<close>

definition shapely_centroid :: "polygon \<Rightarrow> point" where
  "shapely_centroid p =
     (let a = signed_area p; l = (\<Sum>(u, v) \<leftarrow> edges p. segment_length u v)
      in if a \<noteq> 0 then
           ((\<Sum>(u, v) \<leftarrow> edges p. (fst u + fst v) * (fst u * snd v - fst v * snd u)) / (6 * a),
            (\<Sum>(u, v) \<leftarrow> edges p. (snd u + snd v) * (fst u * snd v - fst v * snd u)) / (6 * a))
         else if l \<noteq> 0 then
           ((\<Sum>(u, v) \<leftarrow> edges p. segment_length u v * ((fst u + fst v) / 2)) / l,
            (\<Sum>(u, v) \<leftarrow> edges p. segment_length u v * ((snd u + snd v) / 2)) / l)
         else (case p of [] \<Rightarrow> (0, 0) | v # _ \<Rightarrow> v))"

text \<open>
  \<^verbatim>\<open>rotate(p, angle, origin='centroid', use_radians=False)\<close>: the angle is in degrees,
  counter-clockwise; a cosine or sine smaller in size than \<open>2.5e-16\<close> is taken as 0; with
  \<open>(x0, y0)\<close> the centroid, the point \<open>(x, y)\<close> goes to
  \<open>(cos r * x - sin r * y + xoff, sin r * x + cos r * y + yoff)\<close> where
  \<open>xoff = x0 - x0 * cos r + y0 * sin r\<close> and \<open>yoff = y0 - x0 * sin r - y0 * cos r\<close>.
\<close>

definition snap :: "real \<Rightarrow> real" where
  "snap c = (if \<bar>c\<bar> < 25 / 10 ^ 17 then 0 else c)"

definition shapely_rotate :: "polygon \<Rightarrow> real \<Rightarrow> polygon" where
  "shapely_rotate p angle =
     (if p = [] then p
      else let r = angle * pi / 180;
               cosp = snap (cos r);
               sinp = snap (sin r);
               (x0, y0) = shapely_centroid p;
               xoff = x0 - x0 * cosp + y0 * sinp;
               yoff = y0 - x0 * sinp - y0 * cosp
           in map (\<lambda>(x, y). (cosp * x - sinp * y + xoff, sinp * x + cosp * y + yoff)) p)"

definition shapely :: "polygon geometry" where
  "shapely = \<lparr>poly_contains = shapely_contains, poly_intersects = shapely_intersects,
     affinity_rotate = shapely_rotate, affinity_translate = shapely_translate,
     poly_bounds = shapely_bounds, poly_area = shapely_area, Polygon = (\<lambda>pts. pts)\<rparr>"

text \<open>
  The points of a convex polygon, boundary included: the convex combinations of its
  vertices. This is what the predicates above are measured against.
\<close>

definition region :: "polygon \<Rightarrow> point set" where
  "region p = {x. \<exists>ws. length ws = length p \<and> (\<forall>w \<in> set ws. 0 \<le> w) \<and> sum_list ws = 1 \<and>
                  x = (\<Sum>(w, v) \<leftarrow> zip ws p. w * fst v, \<Sum>(w, v) \<leftarrow> zip ws p. w * snd v)}"

text \<open>The interior of a set of points: the points with a whole square around them in the set.\<close>

definition interior_pts :: "point set \<Rightarrow> point set" where
  "interior_pts S = {x. \<exists>e > 0. \<forall>y. \<bar>fst y - fst x\<bar> < e \<and> \<bar>snd y - snd x\<bar> < e \<longrightarrow> y \<in> S}"

text \<open>The shapes of the scenarios.\<close>

definition unit_square :: polygon where
  "unit_square = [(0, 0), (1, 0), (1, 1), (0, 1)]"

definition box :: "real \<Rightarrow> real \<Rightarrow> polygon" where
  "box w h = [(0, 0), (w, 0), (w, h), (0, h)]"

definition square_at :: "real \<Rightarrow> real \<Rightarrow> polygon" where
  "square_at x y = [(x, y), (x + 1, y), (x + 1, y + 1), (x, y + 1)]"

text \<open>The unit squares at the anchors with even coordinates below 10.\<close>

definition checkerboard :: "polygon list" where
  "checkerboard = concat (map (\<lambda>x. map (\<lambda>y. square_at x y) [0, 2, 4, 6, 8]) [0, 2, 4, 6, 8])"

section \<open>Convex polygons and their vertical slices\<close>

text \<open>
  What the hull computation delivers: at least three distinct vertices, listed
  counter-clockwise, every vertex strictly to the left of every edge it is not an end of.
\<close>

definition convex_ccw :: "polygon \<Rightarrow> bool" where
  "convex_ccw p = (3 \<le> length p \<and> distinct p \<and>
     (\<forall>(u, v) \<in> set (edges p). \<forall>w \<in> set p. w \<noteq> u \<and> w \<noteq> v \<longrightarrow> 0 < side u v w))"

text \<open>A point under the map \<open>(x, y) \<mapsto> (a x + b y + e, c x + d y + g)\<close>.\<close>

definition affine_map :: "real \<Rightarrow> real \<Rightarrow> real \<Rightarrow> real \<Rightarrow> real \<Rightarrow> real \<Rightarrow> point \<Rightarrow> point" where
  "affine_map a b c d e g w = (a * fst w + b * snd w + e, c * fst w + d * snd w + g)"

text \<open>
  The area of a polygon is measured slice by slice. The vertical line at abscissa \<open>t\<close>
  meets an edge that goes from its left to its right, or from its right to its left, at
  the height \<open>edge_height\<close>; for a convex polygon listed counter-clockwise the former
  edge is its bottom there, the latter its top. A line is in general position for a
  polygon when no vertex lies on it.
\<close>

definition edge_height :: "point \<Rightarrow> point \<Rightarrow> real \<Rightarrow> real" where
  "edge_height u v t = snd u + (t - fst u) * (snd v - snd u) / (fst v - fst u)"

definition going_right :: "real \<Rightarrow> point \<times> point \<Rightarrow> bool" where
  "going_right t e = (fst (fst e) < t \<and> t < fst (snd e))"

definition going_left :: "real \<Rightarrow> point \<times> point \<Rightarrow> bool" where
  "going_left t e = (fst (snd e) < t \<and> t < fst (fst e))"

definition crossing :: "real \<Rightarrow> point \<times> point \<Rightarrow> bool" where
  "crossing t e = (going_right t e \<or> going_left t e)"

definition generic :: "polygon \<Rightarrow> real \<Rightarrow> bool" where
  "generic p t = (\<forall>w \<in> set p. fst w \<noteq> t)"

definition edge_term :: "real \<Rightarrow> point \<times> point \<Rightarrow> real" where
  "edge_term t e =
     (if going_left t e then edge_height (fst e) (snd e) t
      else if going_right t e then - edge_height (fst e) (snd e) t else 0)"

definition slice_width :: "polygon \<Rightarrow> real \<Rightarrow> real" where
  "slice_width p t = (\<Sum>e \<leftarrow> edges p. edge_term t e)"

definition slice_bottom :: "polygon \<Rightarrow> real \<Rightarrow> real" where
  "slice_bottom p t = (\<Sum>e \<leftarrow> filter (going_right t) (edges p). edge_height (fst e) (snd e) t)"

definition slice_top :: "polygon \<Rightarrow> real \<Rightarrow> real" where
  "slice_top p t = (\<Sum>e \<leftarrow> filter (going_left t) (edges p). edge_height (fst e) (snd e) t)"

definition crossed :: "polygon \<Rightarrow> real \<Rightarrow> bool" where
  "crossed p t = (filter (going_right t) (edges p) \<noteq> [])"

text \<open>The pairs of neighbours in a list of abscissas.\<close>

definition consec :: "real list \<Rightarrow> (real \<times> real) list" where
  "consec B = zip B (tl B)"

text \<open>
  Two polygons are strictly apart when some line has all vertices of one on its left or
  on it, and all vertices of the other strictly on its right. Two intervals are disjoint
  when one ends before the other begins.
\<close>

definition sep :: "point \<Rightarrow> point \<Rightarrow> polygon \<Rightarrow> polygon \<Rightarrow> bool" where
  "sep a b A B = ((\<forall>w \<in> set A. 0 \<le> side a b w) \<and> (\<forall>w \<in> set B. side a b w < 0))"

definition strictly_apart :: "polygon \<Rightarrow> polygon \<Rightarrow> bool" where
  "strictly_apart A B = (\<exists>a b. sep a b A B \<or> sep a b B A)"

definition disjoint_iv :: "real \<times> real \<Rightarrow> real \<times> real \<Rightarrow> bool" where
  "disjoint_iv i j = (snd i < fst j \<or> snd j < fst i)"

text \<open>A square of side 5, for a run of the whole program.\<close>

definition square5 :: polygon where
  "square5 = [(0, 0), (5, 0), (5, 5), (0, 5)]"

section \<open>Auxiliary notions\<close>

text \<open>The keys of a dictionary filled from a list, in order: each element where it first occurs.\<close>

fun first_occurrences :: "'a list \<Rightarrow> 'a list" where
  "first_occurrences [] = []"
| "first_occurrences (x # xs) = x # filter (\<lambda>y. y \<noteq> x) (first_occurrences xs)"

text \<open>No shape of the list intersects a shape before it in the list.\<close>

definition apart :: "'p geometry \<Rightarrow> 'p list \<Rightarrow> bool" where
  "apart G ps = (\<forall>j < length ps. \<forall>i < j. \<not> poly_intersects G (ps ! j) (ps ! i))"

definition all_contained :: "'p geometry \<Rightarrow> 'p \<Rightarrow> 'p list \<Rightarrow> bool" where
  "all_contained G container ps = (\<forall>p \<in> set ps. poly_contains G container p)"

definition placed_ok :: "'p geometry \<Rightarrow> 'p \<Rightarrow> 'p list \<Rightarrow> bool" where
  "placed_ok G container ps = (all_contained G container ps \<and> apart G ps)"

section \<open>Rounding to double precision\<close>


lemma round_half_even_int [simp]: "round_half_even (of_int k) = k"
  by (simp add: round_half_even_def)




lemma powi_neg: "0 \<le> b \<Longrightarrow> (2::real) powi (- b) = 1 / 2 ^ nat b"
  by (simp add: power_int_minus power_int_nonneg_exp inverse_eq_divide)

lemma powi_neg1: "1 \<le> b \<Longrightarrow> (2::real) powi (1 - b) = 1 / 2 ^ nat (b - 1)"
  using powi_neg [of "b - 1"] by simp

lemma binade_bounds:
  assumes "0 < x"
  shows "2 powi binade x \<le> x" and "x < 2 powi (binade x + 1)"
proof -
  show "2 powi binade x \<le> x"
  proof (cases "1 \<le> x")
    case True
    then have n: "0 < \<lfloor>x\<rfloor>" by simp
    from bitlen_bounds [OF n] have "2 ^ nat (bitlen \<lfloor>x\<rfloor> - 1) \<le> \<lfloor>x\<rfloor>" ..
    then have "real_of_int (2 ^ nat (bitlen \<lfloor>x\<rfloor> - 1)) \<le> real_of_int \<lfloor>x\<rfloor>"
      by (rule of_int_le_iff [THEN iffD2])
    also have "\<dots> \<le> x" by simp
    finally have "2 ^ nat (bitlen \<lfloor>x\<rfloor> - 1) \<le> x" by simp
    moreover from n have "1 \<le> bitlen \<lfloor>x\<rfloor>" by (simp add: bitlen_alt_def)
    ultimately show ?thesis using True by (simp add: binade_def power_int_def)
  next
    case False
    with assms have y: "1 < 1 / x" by simp
    then have m: "0 < \<lceil>1 / x\<rceil> - 1" by (simp add: less_ceiling_iff)
    from bitlen_bounds [OF m] have "\<lceil>1 / x\<rceil> - 1 < 2 ^ nat (bitlen (\<lceil>1 / x\<rceil> - 1))" ..
    then have "\<lceil>1 / x\<rceil> \<le> 2 ^ nat (bitlen (\<lceil>1 / x\<rceil> - 1))" by simp
    then have "real_of_int \<lceil>1 / x\<rceil> \<le> real_of_int (2 ^ nat (bitlen (\<lceil>1 / x\<rceil> - 1)))"
      by (rule of_int_le_iff [THEN iffD2])
    with le_of_int_ceiling [of "1 / x"]
    have "1 / x \<le> real_of_int (2 ^ nat (bitlen (\<lceil>1 / x\<rceil> - 1)))"
      by (rule order_trans)
    then have "1 / x \<le> 2 ^ nat (bitlen (\<lceil>1 / x\<rceil> - 1))" by simp
    then have "1 / 2 ^ nat (bitlen (\<lceil>1 / x\<rceil> - 1)) \<le> x"
      using assms by (simp add: field_simps)
    then show ?thesis
      using False bitlen_nonneg [of "\<lceil>1 / x\<rceil> - 1"]
      by (simp add: binade_def powi_neg)
  qed
  show "x < 2 powi (binade x + 1)"
  proof (cases "1 \<le> x")
    case True
    then have n: "0 < \<lfloor>x\<rfloor>" by simp
    from n have b: "1 \<le> bitlen \<lfloor>x\<rfloor>" by (simp add: bitlen_alt_def)
    from bitlen_bounds [OF n] have "\<lfloor>x\<rfloor> < 2 ^ nat (bitlen \<lfloor>x\<rfloor>)" ..
    then have "\<lfloor>x\<rfloor> + 1 \<le> 2 ^ nat (bitlen \<lfloor>x\<rfloor>)" by simp
    then have "real_of_int (\<lfloor>x\<rfloor> + 1) \<le> real_of_int (2 ^ nat (bitlen \<lfloor>x\<rfloor>))"
      by (rule of_int_le_iff [THEN iffD2])
    moreover have "x < real_of_int (\<lfloor>x\<rfloor> + 1)" by linarith
    ultimately have "x < real_of_int (2 ^ nat (bitlen \<lfloor>x\<rfloor>))" by linarith
    then have "x < 2 ^ nat (bitlen \<lfloor>x\<rfloor>)" by simp
    then show ?thesis using True b by (simp add: binade_def power_int_def)
  next
    case False
    with assms have y: "1 < 1 / x" by simp
    then have m: "0 < \<lceil>1 / x\<rceil> - 1" by (simp add: less_ceiling_iff)
    then have b: "1 \<le> bitlen (\<lceil>1 / x\<rceil> - 1)" by (simp add: bitlen_alt_def)
    from bitlen_bounds [OF m]
    have "2 ^ nat (bitlen (\<lceil>1 / x\<rceil> - 1) - 1) \<le> \<lceil>1 / x\<rceil> - 1" ..
    then have "real_of_int (2 ^ nat (bitlen (\<lceil>1 / x\<rceil> - 1) - 1)) \<le> real_of_int (\<lceil>1 / x\<rceil> - 1)"
      by (rule of_int_le_iff [THEN iffD2])
    moreover have "real_of_int (\<lceil>1 / x\<rceil> - 1) < 1 / x" by linarith
    ultimately have "real_of_int (2 ^ nat (bitlen (\<lceil>1 / x\<rceil> - 1) - 1)) < 1 / x"
      by linarith
    then have "2 ^ nat (bitlen (\<lceil>1 / x\<rceil> - 1) - 1) < 1 / x" by simp
    then have "x < 1 / 2 ^ nat (bitlen (\<lceil>1 / x\<rceil> - 1) - 1)"
      using assms by (simp add: field_simps)
    moreover have "(2::real) powi (binade x + 1) = 1 / 2 ^ nat (bitlen (\<lceil>1 / x\<rceil> - 1) - 1)"
      using False b by (simp add: binade_def powi_neg1)
    ultimately show ?thesis by simp
  qed
qed


lemma binade_mono:
  assumes "0 < x" "x \<le> y"
  shows "binade x \<le> binade y"
proof -
  from assms have y: "0 < y" by simp
  have "(2::real) powi binade x \<le> x" using assms(1) by (rule binade_bounds)
  also note assms(2)
  also have "y < 2 powi (binade y + 1)" using y by (rule binade_bounds)
  finally have "(2::real) powi binade x < 2 powi (binade y + 1)" .
  then have "binade x < binade y + 1"
    by (metis linorder_not_le power_int_increasing one_le_numeral)
  then show ?thesis by simp
qed

lemma ulp_pos: "0 < ulp x"
  by (simp add: ulp_def)

lemma ulp_mono: "0 < x \<Longrightarrow> x \<le> y \<Longrightarrow> ulp x \<le> ulp y"
  unfolding ulp_def by (intro power_int_increasing) (use binade_mono [of x y] in auto)




lemma float_round_0 [simp]: "float_round 0 = 0"
  by (simp add: float_round_def)

lemma float_round_exact:
  assumes "\<bar>m\<bar> < 2 ^ 53" and "- 1074 \<le> k"
  shows "float_round (of_int m * 2 powi k) = of_int m * 2 powi k"
proof (cases "m = 0")
  case True
  then show ?thesis by simp
next
  case False
  define x :: real where "x = of_int \<bar>m\<bar> * 2 powi k"
  define e where "e = max (binade x) (- 1022)"
  have xpos: "0 < x" using False by (simp add: x_def)
  have u: "ulp x = 2 powi (e - 52)" by (simp add: ulp_def e_def)
  have "real_of_int \<bar>m\<bar> < real_of_int (2 ^ 53)"
    using assms(1) by (rule of_int_less_iff [THEN iffD2])
  then have "real_of_int \<bar>m\<bar> * 2 powi k < real_of_int (2 ^ 53) * 2 powi k"
    by (intro mult_strict_right_mono) simp_all
  also have "real_of_int (2 ^ 53) * 2 powi k = 2 powi (53 + k)"
    by (simp add: power_int_add)
  finally have "x < 2 powi (53 + k)" by (simp only: x_def)
  with binade_bounds(1) [OF xpos] have "(2::real) powi binade x < 2 powi (53 + k)"
    by (rule le_less_trans)
  then have "binade x < 53 + k"
    by (metis linorder_not_le power_int_increasing one_le_numeral)
  with assms(2) have "e \<le> k + 52" by (simp add: e_def)
  define j where "j = nat (k + 52 - e)"
  from \<open>e \<le> k + 52\<close> have k: "k = int j + (e - 52)" by (simp add: j_def)
  have p: "(2::real) powi k = 2 ^ j * ulp x"
    unfolding u by (subst k, subst power_int_add) simp_all
  have "x = real_of_int \<bar>m\<bar> * 2 powi k" by (rule x_def)
  also have "\<dots> = real_of_int \<bar>m\<bar> * (2 ^ j * ulp x)" by (simp only: p)
  also have "\<dots> = real_of_int (\<bar>m\<bar> * 2 ^ j) * ulp x" by simp
  finally have xe: "x = real_of_int (\<bar>m\<bar> * 2 ^ j) * ulp x" .
  have "a / c = b" if "a = b * c" "0 < c" for a b c :: real
    using that by simp
  from this [OF xe ulp_pos] have q: "x / ulp x = real_of_int (\<bar>m\<bar> * 2 ^ j)" .
  have "round_positive x = real_of_int (\<bar>m\<bar> * 2 ^ j) * ulp x"
    unfolding round_positive_def q round_half_even_int ..
  also have "\<dots> = x" by (rule xe [symmetric])
  finally have f: "round_positive x = x" .
  have a: "\<bar>real_of_int m * 2 powi k\<bar> = x" by (simp add: x_def abs_mult)
  have nz: "real_of_int m * 2 powi k \<noteq> 0" using False by simp
  have "float_round (of_int m * 2 powi k) = sgn (real_of_int m * 2 powi k) * x"
    unfolding float_round_def a f using nz by simp
  also have "\<dots> = of_int m * 2 powi k"
    using False by (cases "0 < m") (simp_all add: x_def sgn_mult sgn_if zero_less_mult_iff not_less)
  finally show ?thesis .
qed

lemma float_round_numeral:
  "numeral n < (2::int) ^ 53 \<Longrightarrow> float_round (numeral n) = numeral n"
  using float_round_exact [of "numeral n" 0] by simp

lemma float_round_1 [simp]: "float_round 1 = 1"
  using float_round_exact [of 1 0] by simp

lemma float_round_half:
  "numeral n < (2::int) ^ 53 \<Longrightarrow> float_round (numeral n / 2) = numeral n / 2"
  using float_round_exact [of "numeral n" "- 1"] by (simp add: inverse_eq_divide)

lemma float_round_one_half [simp]: "float_round (1 / 2) = 1 / 2"
  using float_round_exact [of 1 "- 1"] by (simp add: inverse_eq_divide)



section \<open>The length of a range\<close>





section \<open>The placement predicate and the loops\<close>

lemma no_intersection_iff:
  "no_intersection G candidate placed = (\<forall>e \<in> set placed. \<not> poly_intersects G candidate e)"
  by (induction placed) auto

lemma can_place_iff:
  "can_place G candidate placed bounds =
     (poly_contains G bounds candidate \<and> (\<forall>e \<in> set placed. \<not> poly_intersects G candidate e))"
  by (simp add: can_place_def no_intersection_iff)

lemma try_angles_find:
  "try_angles G container x y items placed =
     (case find (\<lambda>(angle, rotated). can_place G (affinity_translate G rotated x y) placed container) items of
        None \<Rightarrow> placed
      | Some (angle, rotated) \<Rightarrow> placed @ [affinity_translate G rotated x y])"
  by (induction items) (auto simp: Let_def)

lemma try_angles_cases:
  "try_angles G container x y items placed = placed \<or>
   (\<exists>c. can_place G c placed container \<and>
      try_angles G container x y items placed = placed @ [c])"
  by (auto simp: try_angles_find split: option.splits dest: find_Some_iff [THEN iffD1])

lemma apart_snoc:
  "apart G (ps @ [c]) = (apart G ps \<and> (\<forall>e \<in> set ps. \<not> poly_intersects G c e))"
proof
  assume a: "apart G (ps @ [c])"
  have "apart G ps"
    unfolding apart_def
  proof (intro allI impI)
    fix j i assume "j < length ps" "i < j"
    from a have "\<forall>j < length (ps @ [c]). \<forall>i < j.
        \<not> poly_intersects G ((ps @ [c]) ! j) ((ps @ [c]) ! i)"
      unfolding apart_def .
    from this [rule_format, of j i] \<open>j < length ps\<close> \<open>i < j\<close>
    have "\<not> poly_intersects G ((ps @ [c]) ! j) ((ps @ [c]) ! i)"
      by simp
    with \<open>j < length ps\<close> \<open>i < j\<close> show "\<not> poly_intersects G (ps ! j) (ps ! i)"
      by (simp add: nth_append)
  qed
  moreover have "\<forall>e \<in> set ps. \<not> poly_intersects G c e"
  proof
    fix e assume "e \<in> set ps"
    then obtain i where i: "i < length ps" "ps ! i = e"
      by (auto simp: in_set_conv_nth)
    from a have "\<forall>j < length (ps @ [c]). \<forall>i < j.
        \<not> poly_intersects G ((ps @ [c]) ! j) ((ps @ [c]) ! i)"
      unfolding apart_def .
    from this [rule_format, of "length ps" i] i
    have "\<not> poly_intersects G ((ps @ [c]) ! length ps) ((ps @ [c]) ! i)"
      by simp
    with i show "\<not> poly_intersects G c e"
      by (simp add: nth_append)
  qed
  ultimately show "apart G ps \<and> (\<forall>e \<in> set ps. \<not> poly_intersects G c e)" ..
next
  assume r: "apart G ps \<and> (\<forall>e \<in> set ps. \<not> poly_intersects G c e)"
  show "apart G (ps @ [c])"
    unfolding apart_def
  proof (intro allI impI)
    fix j i assume j: "j < length (ps @ [c])" and i: "i < j"
    show "\<not> poly_intersects G ((ps @ [c]) ! j) ((ps @ [c]) ! i)"
    proof (cases "j < length ps")
      case True
      with r i show ?thesis by (simp add: apart_def nth_append)
    next
      case False
      with j have "j = length ps" by simp
      with r i show ?thesis by (simp add: nth_append)
    qed
  qed
qed

lemma try_angles_ok:
  "placed_ok G container placed \<Longrightarrow> placed_ok G container (try_angles G container x y items placed)"
  using try_angles_cases [of G container x y items placed]
  by (auto simp: placed_ok_def all_contained_def apart_snoc can_place_iff)

lemma fold_y_ok:
  "placed_ok G container placed \<Longrightarrow>
   placed_ok G container (fold (\<lambda>y. try_angles G container x y items) ys placed)"
  by (induction ys arbitrary: placed) (auto intro: try_angles_ok)

lemma fold_x_ok:
  "placed_ok G container placed \<Longrightarrow>
   placed_ok G container (fold (\<lambda>x. fold (\<lambda>y. try_angles G container x y items) ys) xs placed)"
  by (induction xs arbitrary: placed) (auto intro: fold_y_ok)

lemma place_columns_fold:
  "place_columns max_size G container items y_min y_max grid_step xs placed =
     (if xs = [] then Inr placed
      else case arange max_size y_min y_max grid_step of
             Inl e \<Rightarrow> Inl e
           | Inr ys \<Rightarrow>
               Inr (fold (\<lambda>x. fold (\<lambda>y. try_angles G container x y items) ys) xs placed))"
  by (induction xs arbitrary: placed) (auto split: sum.splits)

lemma place_shapes_unfold:
  "place_shapes max_size G container shape angles grid_step =
     (case poly_bounds G container of
        None \<Rightarrow> Inl ArangeError
      | Some (x_min, y_min, x_max, y_max) \<Rightarrow>
          (case arange max_size x_min x_max grid_step of
             Inl e \<Rightarrow> Inl e
           | Inr xs \<Rightarrow>
               if xs = [] then Inr []
               else (case arange max_size y_min y_max grid_step of
                       Inl e \<Rightarrow> Inl e
                     | Inr ys \<Rightarrow>
                         Inr (fold (\<lambda>x. fold (\<lambda>y. try_angles G container x y
                                (create_rotated_shapes G shape angles)) ys) xs []))))"
  by (simp add: place_shapes_def Let_def place_columns_fold
      split: option.splits sum.splits prod.splits)

lemma place_shapes_returns:
  assumes "poly_bounds G container = Some b" "anchors max_size b grid_step = Inr as"
  shows "\<exists>ps. place_shapes max_size G container shape angles grid_step = Inr ps"
  using assms
  by (cases b) (auto simp: place_shapes_unfold anchors_def split: sum.splits if_splits)

lemma place_shapes_ok:
  assumes "place_shapes max_size G container shape angles grid_step = Inr ps"
  shows "placed_ok G container ps"
proof -
  have "placed_ok G container []" by (simp add: placed_ok_def all_contained_def apart_def)
  from fold_x_ok [OF this] this assms show ?thesis
    by (auto simp: place_shapes_unfold
        split: option.splits sum.splits prod.splits if_splits)
qed

section \<open>The dictionary of rotated shapes\<close>

lemma first_occurrences_filter:
  "first_occurrences (filter P xs) = filter P (first_occurrences xs)"
  by (induction xs) (auto simp: conj_commute intro: filter_cong)

lemma update_present:
  "a \<in> set ks \<Longrightarrow> AList.update a (f a) (map (\<lambda>k. (k, f k)) ks) = map (\<lambda>k. (k, f k)) ks"
  by (induction ks) auto

lemma update_absent:
  "a \<notin> set ks \<Longrightarrow> AList.update a v (map (\<lambda>k. (k, f k)) ks) = map (\<lambda>k. (k, f k)) ks @ [(a, v)]"
  by (induction ks) auto

lemma fold_update_keys:
  "fold (\<lambda>a d. AList.update a (f a) d) angles (map (\<lambda>k. (k, f k)) ks) =
     map (\<lambda>k. (k, f k)) (ks @ filter (\<lambda>a. a \<notin> set ks) (first_occurrences angles))"
proof (induction angles arbitrary: ks)
  case Nil
  show ?case by simp
next
  case (Cons a angles)
  show ?case
  proof (cases "a \<in> set ks")
    case True
    have "filter (\<lambda>a. a \<notin> set ks) (filter (\<lambda>y. y \<noteq> a) (first_occurrences angles)) =
          filter (\<lambda>a. a \<notin> set ks) (first_occurrences angles)"
      using True by (auto intro: filter_cong)
    with True Cons.IH [of ks] show ?thesis
      by (simp add: update_present)
  next
    case False
    have "filter (\<lambda>x. x \<notin> set (ks @ [a])) (first_occurrences angles) =
          filter (\<lambda>x. x \<notin> set ks) (filter (\<lambda>y. y \<noteq> a) (first_occurrences angles))"
      by (auto intro: filter_cong)
    with False Cons.IH [of "ks @ [a]"] show ?thesis
      by (simp add: update_absent)
  qed
qed

lemma create_rotated_shapes_items:
  "create_rotated_shapes G shape angles =
     map (\<lambda>angle. (angle, affinity_rotate G shape angle)) (first_occurrences angles)"
  using fold_update_keys [of "affinity_rotate G shape" angles "[]"]
  by (simp add: create_rotated_shapes_def)

lemma first_occurrences_distinct: "distinct xs \<Longrightarrow> first_occurrences xs = xs"
proof (induction xs)
  case Nil show ?case by simp
next
  case (Cons x xs)
  then have "filter (\<lambda>y. y \<noteq> x) xs = xs" by (auto intro: filter_True)
  with Cons show ?case by simp
qed

lemma set_first_occurrences: "set (first_occurrences xs) = set xs"
  by (induction xs) auto

lemma distinct_first_occurrences: "distinct (first_occurrences xs)"
  by (induction xs) (auto simp: set_first_occurrences)

lemma place_shapes_anchors:
  assumes "poly_bounds G container = Some b"
  shows "place_shapes max_size G container shape angles grid_step =
     map_sum id
       (\<lambda>as. fold (\<lambda>(x, y). try_angles G container x y (create_rotated_shapes G shape angles)) as [])
       (anchors max_size b grid_step)"
proof -
  have inner: "fold (\<lambda>(x, y). try_angles G container x y items) (map (\<lambda>y. (x, y)) ys) =
               fold (\<lambda>y. try_angles G container x y items) ys" for x ys items
    by (simp add: fold_map comp_def)
  have outer: "fold (\<lambda>(x, y). try_angles G container x y items)
                 (concat (map (\<lambda>x. map (\<lambda>y. (x, y)) ys) xs)) acc =
               fold (\<lambda>x. fold (\<lambda>y. try_angles G container x y items) ys) xs acc"
    for xs ys items acc
    by (induction xs arbitrary: acc) (simp_all add: inner)
  show ?thesis
    using assms
    by (cases b) (simp add: place_shapes_unfold anchors_def outer split: sum.splits)
qed

lemma place_shapes_returns_iff:
  "(\<exists>ps. place_shapes max_size G container shape angles grid_step = Inr ps) =
   (\<exists>b as. poly_bounds G container = Some b \<and> anchors max_size b grid_step = Inr as)"
proof
  assume "\<exists>ps. place_shapes max_size G container shape angles grid_step = Inr ps"
  then obtain ps where ps: "place_shapes max_size G container shape angles grid_step = Inr ps" ..
  then obtain b where b: "poly_bounds G container = Some b"
    by (cases "poly_bounds G container") (auto simp: place_shapes_def)
  from ps obtain as where "anchors max_size b grid_step = Inr as"
    unfolding place_shapes_anchors [OF b]
    by (cases "anchors max_size b grid_step") auto
  with b show "\<exists>b as. poly_bounds G container = Some b \<and> anchors max_size b grid_step = Inr as"
    by blast
next
  assume "\<exists>b as. poly_bounds G container = Some b \<and> anchors max_size b grid_step = Inr as"
  then obtain b as where "poly_bounds G container = Some b"
    "anchors max_size b grid_step = Inr as" by blast
  then show "\<exists>ps. place_shapes max_size G container shape angles grid_step = Inr ps"
    by (rule place_shapes_returns)
qed

section \<open>Facts about the model of the library\<close>

lemma shapely_rotate_0: "shapely_rotate p 0 = p"
proof -
  have "map (\<lambda>(x, y). (x, y)) p = p" by (induction p) auto
  then show ?thesis
    by (simp add: shapely_rotate_def snap_def Let_def split: prod.splits)
qed

lemma side_affine:
  "length ws = length vs \<Longrightarrow>
   (\<Sum>(w, v) \<leftarrow> zip ws vs. w * side p q v) =
     (fst q - fst p) * ((\<Sum>(w, v) \<leftarrow> zip ws vs. w * snd v) - sum_list ws * snd p)
   - (snd q - snd p) * ((\<Sum>(w, v) \<leftarrow> zip ws vs. w * fst v) - sum_list ws * fst p)"
  by (induction ws vs rule: list_induct2) (simp_all add: side_def algebra_simps)

lemma weighted_nonneg:
  "length ws = length vs \<Longrightarrow> \<forall>w \<in> set ws. 0 \<le> w \<Longrightarrow> \<forall>v \<in> set vs. 0 \<le> f v \<Longrightarrow>
   0 \<le> (\<Sum>(w, v) \<leftarrow> zip ws vs. w * (f v :: real))"
  by (induction ws vs rule: list_induct2) (auto intro: add_nonneg_nonneg)

lemma weighted_pos:
  "length ws = length vs \<Longrightarrow> \<forall>w \<in> set ws. 0 \<le> w \<Longrightarrow> \<forall>v \<in> set vs. 0 < f v \<Longrightarrow>
   0 < sum_list ws \<Longrightarrow> 0 < (\<Sum>(w, v) \<leftarrow> zip ws vs. w * (f v :: real))"
proof (induction ws vs rule: list_induct2)
  case Nil
  then show ?case by simp
next
  case (Cons w ws v vs)
  have nn: "0 \<le> (\<Sum>(w, v) \<leftarrow> zip ws vs. w * f v)"
    using Cons.hyps Cons.prems by (intro weighted_nonneg) (auto intro: less_imp_le)
  show ?case
  proof (cases "0 < w")
    case True
    with Cons.prems have "0 < w * f v" by simp
    with nn show ?thesis by simp
  next
    case False
    with Cons.prems have "w = 0" by auto
    with Cons show ?thesis by simp
  qed
qed

lemma region_side:
  assumes "x \<in> region vs"
  shows "\<exists>ws. length ws = length vs \<and> (\<forall>w \<in> set ws. 0 \<le> w) \<and> sum_list ws = 1 \<and>
     side p q x = (\<Sum>(w, v) \<leftarrow> zip ws vs. w * side p q v)"
proof -
  from assms obtain ws where ws: "length ws = length vs" "\<forall>w \<in> set ws. 0 \<le> w" "sum_list ws = 1"
    and x: "x = (\<Sum>(w, v) \<leftarrow> zip ws vs. w * fst v, \<Sum>(w, v) \<leftarrow> zip ws vs. w * snd v)"
    unfolding region_def by blast
  have "side p q x = (\<Sum>(w, v) \<leftarrow> zip ws vs. w * side p q v)"
    unfolding side_affine [OF ws(1)] ws(3) x by (simp add: side_def)
  with ws show ?thesis by blast
qed

lemma region_side_nonneg:
  assumes "x \<in> region vs" "\<forall>v \<in> set vs. 0 \<le> side p q v"
  shows "0 \<le> side p q x"
proof -
  from region_side [OF assms(1), of p q] obtain ws where
    ws: "length ws = length vs" "\<forall>w \<in> set ws. 0 \<le> w"
    and s: "side p q x = (\<Sum>(w, v) \<leftarrow> zip ws vs. w * side p q v)" by blast
  show ?thesis unfolding s using ws assms(2) by (rule weighted_nonneg)
qed

lemma region_side_pos:
  assumes "x \<in> region vs" "\<forall>v \<in> set vs. 0 < side p q v"
  shows "0 < side p q x"
proof -
  from region_side [OF assms(1), of p q] obtain ws where
    ws: "length ws = length vs" "\<forall>w \<in> set ws. 0 \<le> w" "sum_list ws = 1"
    and s: "side p q x = (\<Sum>(w, v) \<leftarrow> zip ws vs. w * side p q v)" by blast
  have "0 < sum_list ws" using ws(3) by simp
  with ws(1,2) assms(2) show ?thesis unfolding s by (rule weighted_pos)
qed

lemma region_side_nonpos:
  assumes "x \<in> region vs" "\<forall>v \<in> set vs. side p q v \<le> 0"
  shows "side p q x \<le> 0"
proof -
  from region_side [OF assms(1), of p q] obtain ws where
    ws: "length ws = length vs" "\<forall>w \<in> set ws. 0 \<le> w"
    and s: "side p q x = (\<Sum>(w, v) \<leftarrow> zip ws vs. w * side p q v)" by blast
  have "0 \<le> (\<Sum>(w, v) \<leftarrow> zip ws vs. w * (- side p q v))"
    using ws assms(2) by (intro weighted_nonneg) auto
  also have "(\<Sum>(w, v) \<leftarrow> zip ws vs. w * (- side p q v)) = - (\<Sum>(w, v) \<leftarrow> zip ws vs. w * side p q v)"
    using ws(1) by (induction ws vs rule: list_induct2) auto
  finally show ?thesis unfolding s by simp
qed

lemma region_side_neg:
  assumes "x \<in> region vs" "\<forall>v \<in> set vs. side p q v < 0"
  shows "side p q x < 0"
proof -
  from region_side [OF assms(1), of p q] obtain ws where
    ws: "length ws = length vs" "\<forall>w \<in> set ws. 0 \<le> w" "sum_list ws = 1"
    and s: "side p q x = (\<Sum>(w, v) \<leftarrow> zip ws vs. w * side p q v)" by blast
  have "0 < sum_list ws" using ws(3) by simp
  with ws(1,2) have "0 < (\<Sum>(w, v) \<leftarrow> zip ws vs. w * (- side p q v))"
    using assms(2) by (intro weighted_pos) auto
  also have "(\<Sum>(w, v) \<leftarrow> zip ws vs. w * (- side p q v)) = - (\<Sum>(w, v) \<leftarrow> zip ws vs. w * side p q v)"
    using ws(1) by (induction ws vs rule: list_induct2) auto
  finally show ?thesis unfolding s by simp
qed

lemma separating_edge_disjoint:
  assumes "separating_edge a b"
  shows "region a \<inter> region b = {}"
proof (rule ccontr)
  assume "region a \<inter> region b \<noteq> {}"
  then obtain x where xa: "x \<in> region a" and xb: "x \<in> region b" by blast
  from assms obtain e where e:
    "(case e of (p, q) \<Rightarrow>
       (list_all (\<lambda>v. 0 \<le> side p q v) a \<and> list_all (\<lambda>v. side p q v < 0) b) \<or>
       (list_all (\<lambda>v. side p q v \<le> 0) a \<and> list_all (\<lambda>v. 0 < side p q v) b))"
    unfolding separating_edge_def list_ex_iff by blast
  obtain p q where pq: "e = (p, q)" by (cases e)
  from e have
    "((\<forall>v \<in> set a. 0 \<le> side p q v) \<and> (\<forall>v \<in> set b. side p q v < 0)) \<or>
     ((\<forall>v \<in> set a. side p q v \<le> 0) \<and> (\<forall>v \<in> set b. 0 < side p q v))"
    unfolding pq by (simp add: list_all_iff)
  then show False
  proof
    assume h: "(\<forall>v \<in> set a. 0 \<le> side p q v) \<and> (\<forall>v \<in> set b. side p q v < 0)"
    from h have "0 \<le> side p q x" by (intro region_side_nonneg [OF xa]) simp
    moreover from h have "side p q x < 0" by (intro region_side_neg [OF xb]) simp
    ultimately show False by simp
  next
    assume h: "(\<forall>v \<in> set a. side p q v \<le> 0) \<and> (\<forall>v \<in> set b. 0 < side p q v)"
    from h have "side p q x \<le> 0" by (intro region_side_nonpos [OF xa]) simp
    moreover from h have "0 < side p q x" by (intro region_side_pos [OF xb]) simp
    ultimately show False by simp
  qed
qed

lemma region_Nil: "region [] = {}"
  by (simp add: region_def)

lemma shapely_intersects_sound:
  assumes "region a \<inter> region b \<noteq> {}"
  shows "shapely_intersects a b"
proof -
  from assms have "a \<noteq> []" "b \<noteq> []" using region_Nil by auto
  moreover from assms have "\<not> separating_edge a b"
    using separating_edge_disjoint [of a b] by blast
  moreover from assms have "\<not> separating_edge b a"
    using separating_edge_disjoint [of b a] by blast
  ultimately show ?thesis by (simp add: shapely_intersects_def)
qed

lemma place_shapes_apart:
  "place_shapes max_size G container shape angles grid_step = Inr ps \<Longrightarrow> apart G ps"
  using place_shapes_ok [of max_size G container shape angles grid_step ps]
  by (simp add: placed_ok_def)

lemma place_shapes_all_contained:
  "place_shapes max_size G container shape angles grid_step = Inr ps \<Longrightarrow>
   all_contained G container ps"
  using place_shapes_ok [of max_size G container shape angles grid_step ps]
  by (simp add: placed_ok_def)

lemma apart_pts_disjoint:
  assumes ap: "apart G ps"
    and contract: "\<forall>a c. pts a \<inter> pts c \<noteq> {} \<longrightarrow> poly_intersects G a c"
    and ij: "i < length ps" "j < length ps" "i \<noteq> j"
  shows "pts (ps ! i) \<inter> pts (ps ! j) = {}"
proof (cases "i < j")
  case True
  with ap ij have "\<not> poly_intersects G (ps ! j) (ps ! i)" by (simp add: apart_def)
  with contract have "pts (ps ! j) \<inter> pts (ps ! i) = {}" by blast
  then show ?thesis by blast
next
  case False
  with ij have "j < i" by simp
  with ap ij have "\<not> poly_intersects G (ps ! i) (ps ! j)" by (simp add: apart_def)
  with contract show ?thesis by blast
qed

lemma interior_pts_subset: "interior_pts S \<subseteq> S"
proof
  fix x assume "x \<in> interior_pts S"
  then obtain e where e: "e > 0"
    and all: "\<forall>y. \<bar>fst y - fst x\<bar> < e \<and> \<bar>snd y - snd x\<bar> < e \<longrightarrow> y \<in> S"
    unfolding interior_pts_def by blast
  from all [rule_format, of x] e show "x \<in> S" by simp
qed

lemma arange_small:
  "arange max_doubles 0 3 1 = Inr [0, 1, 2]" "arange max_doubles 0 1 1 = Inr [0]"
  by (simp_all add: arange_def arange_item_def overflows_def max_doubles_def
      float_round_numeral upt_rec)

lemma anchors_small: "anchors max_doubles (0, 0, 3, 1) 1 = Inr [(0, 0), (1, 0), (2, 0)]"
  by (simp add: anchors_def arange_small)

lemma small_run:
  "place_shapes max_doubles shapely (box 3 1) unit_square [0] 1 =
     Inr [square_at 0 0, square_at 2 0]"
proof -
  have b: "poly_bounds shapely (box 3 1) = Some (0, 0, 3, 1)"
    by (simp add: shapely_def box_def)
  show ?thesis
    by (simp add: place_shapes_unfold b arange_small)
       (simp add: shapely_def box_def unit_square_def square_at_def
         create_rotated_shapes_def shapely_rotate_0 can_place_def
         shapely_contains_def shapely_intersects_def separating_edge_def edges_def side_def
         shapely_translate_def)
qed

section \<open>The scenarios, evaluated\<close>

lemma shapely_sel:
  "poly_contains shapely = shapely_contains"
  "poly_intersects shapely = shapely_intersects"
  "affinity_rotate shapely = shapely_rotate"
  "affinity_translate shapely = shapely_translate"
  "poly_bounds shapely = shapely_bounds"
  "poly_area shapely = shapely_area"
  by (simp_all add: shapely_def)

lemma translate_unit_square: "shapely_translate unit_square x y = square_at x y"
  by (simp add: shapely_translate_def unit_square_def square_at_def add.commute)

lemma separating_edge_squares:
  "separating_edge (square_at a b) (square_at c d) = (1 < \<bar>a - c\<bar> \<or> 1 < \<bar>b - d\<bar>)"
  unfolding separating_edge_def edges_def square_at_def side_def
  by (simp add: abs_if) argo

lemma shapely_intersects_squares:
  "shapely_intersects (square_at a b) (square_at c d) = (\<bar>a - c\<bar> \<le> 1 \<and> \<bar>b - d\<bar> \<le> 1)"
proof -
  have ne: "square_at a b \<noteq> []" for a b by (simp add: square_at_def)
  show ?thesis
    unfolding shapely_intersects_def separating_edge_squares
    using ne by (auto simp: abs_if)
qed


lemma edges_box:
  "edges (box w h) = [((0, 0), (w, 0)), ((w, 0), (w, h)), ((w, h), (0, h)), ((0, h), (0, 0))]"
  by (simp add: edges_def box_def)

lemma shapely_contains_box:
  assumes "0 < w" "0 < h"
  shows "shapely_contains (box w h) b =
     (b \<noteq> [] \<and> (\<forall>(x, y) \<in> set b. 0 \<le> x \<and> x \<le> w \<and> 0 \<le> y \<and> y \<le> h))"
proof (cases "b = []")
  case True
  then show ?thesis by (simp add: shapely_contains_def)
next
  case False
  then obtain v vs where b: "b = v # vs" by (cases b) auto
  have inner: "list_all (\<lambda>(p, q). 0 \<le> side p q u) (edges (box w h)) =
     (0 \<le> fst u \<and> fst u \<le> w \<and> 0 \<le> snd u \<and> snd u \<le> h)" for u
    using assms by (auto simp: edges_box side_def zero_le_mult_iff mult_le_0_iff)
  have outer: "\<not> list_all (\<lambda>(p, q). side p q u \<le> 0) (edges (box w h))" for u
    using assms by (auto simp: edges_box side_def zero_le_mult_iff mult_le_0_iff)
  have "shapely_contains (box w h) b =
     list_all (\<lambda>u. 0 \<le> fst u \<and> fst u \<le> w \<and> 0 \<le> snd u \<and> snd u \<le> h) b"
    unfolding shapely_contains_def inner using False outer [of v]
    by (simp add: b)
  also have "\<dots> = (\<forall>(x, y) \<in> set b. 0 \<le> x \<and> x \<le> w \<and> 0 \<le> y \<and> y \<le> h)"
    by (auto simp: list_all_iff)
  finally show ?thesis using False by simp
qed

lemma contains_box_square:
  assumes "0 < w" "0 < h"
  shows "shapely_contains (box w h) (square_at x y) = (0 \<le> x \<and> x + 1 \<le> w \<and> 0 \<le> y \<and> y + 1 \<le> h)"
  unfolding shapely_contains_box [OF assms] by (auto simp: square_at_def)

lemma can_place_square:
  assumes "0 < w" "0 < h"
  shows "can_place shapely (square_at x y) placed (box w h) =
     (0 \<le> x \<and> x + 1 \<le> w \<and> 0 \<le> y \<and> y + 1 \<le> h \<and>
      no_intersection shapely (square_at x y) placed)"
  by (auto simp: can_place_def shapely_sel contains_box_square [OF assms])

lemma try_angles_square:
  "try_angles shapely (box 10 10) x y [(0, unit_square)] placed =
     (if 0 \<le> x \<and> x + 1 \<le> 10 \<and> 0 \<le> y \<and> y + 1 \<le> 10 \<and>
         no_intersection shapely (square_at x y) placed
      then placed @ [square_at x y] else placed)"
proof -
  have t: "affinity_translate shapely unit_square x y = square_at x y"
    by (simp add: shapely_sel translate_unit_square)
  show ?thesis
    by (simp add: t can_place_square Let_def)
qed

lemma fold_step: "fold f (x # xs) s = fold f xs (f x s)" "fold f [] s = s"
  by simp_all

lemma poly_intersects_squares:
  "poly_intersects shapely (square_at a b) (square_at c d) = (\<bar>a - c\<bar> \<le> 1 \<and> \<bar>b - d\<bar> \<le> 1)"
  by (simp add: shapely_sel shapely_intersects_squares)

lemma scenario_1_run:
  assumes "10 \<le> max_size"
  shows "place_shapes max_size shapely (box 10 10) unit_square [0] 1 = Inr checkerboard"
proof -
  have b: "poly_bounds shapely (box 10 10) = Some (0, 0, 10, 10)"
    by (simp add: shapely_sel box_def)
  have r: "create_rotated_shapes shapely unit_square [0] = [(0, unit_square)]"
    by (simp add: create_rotated_shapes_def shapely_sel shapely_rotate_0)
  have a: "arange max_size 0 10 1 = Inr [0, 1, 2, 3, 4, 5, 6, 7, 8, 9]"
    using assms
    by (simp add: arange_def arange_item_def overflows_def max_doubles_def
        float_round_numeral upt_rec)
  show ?thesis
    by (simp add: place_shapes_unfold b r a try_angles_square poly_intersects_squares
        checkerboard_def fold_step del: fold.simps try_angles.simps)
qed

lemma shapely_area_square: "shapely_area (square_at x y) = 1"
  by (simp add: shapely_area_def signed_area_def edges_def square_at_def algebra_simps)

lemma shapely_area_box: "shapely_area (box w h) = \<bar>w * h\<bar>"
  by (simp add: shapely_area_def signed_area_def edges_def box_def algebra_simps)

lemma utilization_checkerboard: "utilization shapely checkerboard (box 10 10) = Inr 25"
  by (simp add: utilization_def shapely_sel checkerboard_def shapely_area_square shapely_area_box)

lemma length_checkerboard: "length checkerboard = 25"
  by (simp add: checkerboard_def)

lemma rect_rot90:
  "shapely_rotate [(0, 0), (2, 0), (2, 1), (0, 1)] 90 = [(3/2, -1/2), (3/2, 3/2), (1/2, 3/2), (1/2, -1/2)]"
  by (simp add: shapely_rotate_def snap_def Let_def shapely_centroid_def signed_area_def edges_def)

lemma rect_items:
  "create_rotated_shapes shapely [(0, 0), (2, 0), (2, 1), (0, 1)] [0, 90] =
     [(0, [(0, 0), (2, 0), (2, 1), (0, 1)]), (90, [(3/2, -1/2), (3/2, 3/2), (1/2, 3/2), (1/2, -1/2)])]"
  by (simp add: create_rotated_shapes_def shapely_sel shapely_rotate_0 rect_rot90)

lemma rect_anchor:
  "try_angles shapely (box (3/2) (5/2)) 0 (1/2)
     (create_rotated_shapes shapely [(0, 0), (2, 0), (2, 1), (0, 1)] [0, 90]) [] =
   [[(3/2, 0), (3/2, 2), (1/2, 2), (1/2, 0)]]"
  unfolding rect_items
  by (simp add: can_place_def shapely_sel shapely_contains_def shapely_translate_def
      edges_def box_def side_def)

lemma map_of_keys:
  "map_of (map (\<lambda>k. (k, f k)) ks) a = (if a \<in> set ks then Some (f a) else None)"
  by (induction ks) auto

lemma create_rotated_shapes_lookup:
  "map_of (create_rotated_shapes G shape angles) angle =
     (if angle \<in> set angles then Some (affinity_rotate G shape angle) else None)"
  by (simp add: create_rotated_shapes_items map_of_keys set_first_occurrences)

section \<open>The utilization figure\<close>

lemma utilization_formula:
  "poly_area G container \<noteq> 0 \<Longrightarrow>
   utilization G placed container =
     Inr (sum_list (map (poly_area G) placed) / poly_area G container * 100)"
  by (simp add: utilization_def)

lemma utilization_empty:
  "poly_area G container \<noteq> 0 \<Longrightarrow> utilization G [] container = Inr 0"
  by (simp add: utilization_def)

lemma utilization_nonneg:
  assumes "\<forall>p. 0 \<le> poly_area G p" and "utilization G placed container = Inr u"
  shows "0 \<le> u"
proof -
  have "0 \<le> sum_list (map (poly_area G) placed)"
    using assms(1) by (intro sum_list_nonneg) auto
  moreover have "0 \<le> poly_area G container" using assms(1) by simp
  ultimately show ?thesis
    using assms(2) by (auto simp: utilization_def Let_def split: if_splits)
qed

section \<open>The area of convex polygons that lie apart in a rectangle\<close>

lemma edges_fst: "map fst (edges p) = p"
  by (simp add: edges_def)

lemma edges_snd: "map snd (edges p) = rotate1 p"
  by (simp add: edges_def)

lemma sum_edges_fst: "(\<Sum>(u, v) \<leftarrow> edges p. g u) = sum_list (map (g :: point \<Rightarrow> real) p)"
proof -
  have "(\<Sum>(u, v) \<leftarrow> edges p. g u) = sum_list (map g (map fst (edges p)))"
    by (simp add: comp_def case_prod_unfold)
  then show ?thesis by (simp only: edges_fst)
qed

lemma sum_list_rotate1: "sum_list (rotate1 xs) = sum_list (xs :: real list)"
  by (cases xs) simp_all

lemma sum_edges_snd: "(\<Sum>(u, v) \<leftarrow> edges p. g v) = sum_list (map (g :: point \<Rightarrow> real) p)"
proof -
  have "(\<Sum>(u, v) \<leftarrow> edges p. g v) = sum_list (map g (map snd (edges p)))"
    by (simp add: comp_def case_prod_unfold)
  also have "\<dots> = sum_list (rotate1 (map g p))"
    by (simp only: edges_snd rotate1_map)
  finally show ?thesis by (simp add: sum_list_rotate1)
qed

lemma sum_edges_diff: "(\<Sum>(u, v) \<leftarrow> edges p. g u - g v) = (0 :: real)"
proof -
  have "(\<Sum>(u, v) \<leftarrow> edges p. g u - g v) =
        (\<Sum>(u, v) \<leftarrow> edges p. g u) - (\<Sum>(u, v) \<leftarrow> edges p. g v)"
    by (simp add: sum_list_subtractf case_prod_unfold)
  then show ?thesis by (simp add: sum_edges_fst sum_edges_snd)
qed

lemma signed_area_fan:
  "signed_area p = (\<Sum>(u, v) \<leftarrow> edges p. side o' u v) / 2"
proof -
  have "side o' u v = (fst u * snd v - fst v * snd u) - snd o' * (fst u - fst v)
          + fst o' * (snd u - snd v)" for u v
    by (simp add: side_def algebra_simps)
  then have "(\<Sum>(u, v) \<leftarrow> edges p. side o' u v) =
      (\<Sum>(u, v) \<leftarrow> edges p. (fst u * snd v - fst v * snd u) - snd o' * (fst u - fst v)
          + fst o' * (snd u - snd v))"
    by simp
  also have "\<dots> = (\<Sum>(u, v) \<leftarrow> edges p. fst u * snd v - fst v * snd u)
      - snd o' * (\<Sum>(u, v) \<leftarrow> edges p. fst u - fst v)
      + fst o' * (\<Sum>(u, v) \<leftarrow> edges p. snd u - snd v)"
    by (simp add: sum_list_addf sum_list_subtractf sum_list_const_mult case_prod_unfold)
  finally show ?thesis
    by (simp add: signed_area_def sum_edges_diff [of fst] sum_edges_diff [of snd])
qed

lemma side_cycle: "side a b c = side b c a"
  by (simp add: side_def algebra_simps)

lemma sum_list_pos_member:
  assumes "\<forall>x \<in> set xs. 0 \<le> (x :: real)" "y \<in> set xs" "0 < y"
  shows "0 < sum_list xs"
  using assms
proof (induction xs)
  case Nil
  then show ?case by simp
next
  case (Cons x xs)
  have nn: "0 \<le> sum_list xs" using Cons.prems(1) by (intro sum_list_nonneg) simp
  show ?case
  proof (cases "y = x")
    case True
    with Cons.prems nn show ?thesis by simp
  next
    case False
    with Cons.prems have "y \<in> set xs" by simp
    with Cons have "0 < sum_list xs" by simp
    moreover from Cons.prems have "0 \<le> x" by simp
    ultimately show ?thesis by simp
  qed
qed

lemma convex_ccw_side_nonneg:
  assumes "convex_ccw p" "(u, v) \<in> set (edges p)" "w \<in> set p"
  shows "0 \<le> side u v w"
proof (cases "w = u \<or> w = v")
  case True
  then show ?thesis by (auto simp: side_def)
next
  case False
  with assms have "0 < side u v w" unfolding convex_ccw_def by blast
  then show ?thesis by simp
qed

lemma convex_ccw_area_pos:
  assumes "convex_ccw p"
  shows "0 < signed_area p"
proof -
  from assms have len: "3 \<le> length p" and dist: "distinct p" by (auto simp: convex_ccw_def)
  then obtain o' a b rest where p: "p = o' # a # b # rest"
    by (cases p; cases "tl p"; cases "tl (tl p)") auto
  have ab: "(a, b) \<in> set (edges p)" by (simp add: p edges_def)
  have o: "o' \<in> set p" by (simp add: p)
  from dist have ne: "o' \<noteq> a" "o' \<noteq> b" by (auto simp: p)
  with assms ab o have "0 < side a b o'" unfolding convex_ccw_def by blast
  then have pos: "0 < side o' a b" by (simp add: side_cycle [of o' a b])
  have nn: "\<forall>x \<in> set (map (\<lambda>(u, v). side o' u v) (edges p)). 0 \<le> x"
  proof
    fix x assume "x \<in> set (map (\<lambda>(u, v). side o' u v) (edges p))"
    then obtain u v where uv: "(u, v) \<in> set (edges p)" and x: "x = side o' u v" by auto
    from convex_ccw_side_nonneg [OF assms uv o] show "0 \<le> x"
      by (simp add: x side_cycle [of o' u v])
  qed
  have mem: "side o' a b \<in> set (map (\<lambda>(u, v). side o' u v) (edges p))"
    using ab by force
  from sum_list_pos_member [OF nn mem pos] show ?thesis
    by (simp add: signed_area_fan [of p o'])
qed


lemma consec_Cons2: "consec (x # y # B) = (x, y) # consec (y # B)"
  by (simp add: consec_def)

lemma consec_single: "consec [x] = []" "consec [] = []"
  by (simp_all add: consec_def)

lemma consec_gap:
  assumes "sorted_wrt (<) B" "(a, b) \<in> set (consec B)"
  shows "a < b \<and> a \<in> set B \<and> b \<in> set B \<and> (\<forall>x \<in> set B. x \<le> a \<or> b \<le> x)"
  using assms
proof (induction B rule: induct_list012)
  case 1 then show ?case by (simp add: consec_def)
next
  case (2 x) then show ?case by (simp add: consec_def)
next
  case (3 x y B)
  show ?case
  proof (cases "(a, b) = (x, y)")
    case True
    with "3.prems" show ?thesis by auto
  next
    case False
    with "3.prems" have mem: "(a, b) \<in> set (consec (y # B))" by (auto simp: consec_Cons2)
    from "3.prems" have s: "sorted_wrt (<) (y # B)" by simp
    from "3.IH"(2) [OF s mem] have ih: "a < b" "a \<in> set (y # B)" "b \<in> set (y # B)"
      "\<forall>x \<in> set (y # B). x \<le> a \<or> b \<le> x" by auto
    from "3.prems" ih(2) have "x < a \<or> (x < y \<and> y = a)" by auto
    then have "x \<le> a" by auto
    with ih show ?thesis by auto
  qed
qed

lemma telescope:
  assumes "sorted_wrt (<) B" "lo \<in> set B" "hi \<in> set B" "lo \<le> hi"
  shows "(\<Sum>(a, b) \<leftarrow> consec B. if lo \<le> a \<and> b \<le> hi then F b - F a else 0) = F hi - (F lo :: real)"
  using assms
proof (induction B arbitrary: lo rule: induct_list012)
  case 1 then show ?case by simp
next
  case (2 x) then show ?case by (simp add: consec_single)
next
  case (3 x y B)
  from "3.prems" have s: "sorted_wrt (<) (y # B)" and xy: "x < y"
    and above: "\<forall>z \<in> set (y # B). x < z" by auto
  have later: "y \<le> a" "x < a" "x < b" if "(a, b) \<in> set (consec (y # B))" for a b
  proof -
    from consec_gap [OF s that] have m: "a \<in> set (y # B)" "b \<in> set (y # B)" by auto
    from m(1) "3.prems"(1) show "y \<le> a" by auto
    from m above show "x < a" "x < b" by auto
  qed
  show ?case
  proof (cases "lo = x")
    case True
    show ?thesis
    proof (cases "hi = x")
      case hx: True
      have nothi: "\<not> b \<le> hi" if "(a, b) \<in> set (consec (y # B))" for a b
        using later(3) [OF that] hx by simp
      have "(\<Sum>(a, b) \<leftarrow> consec (y # B). if lo \<le> a \<and> b \<le> hi then F b - F a else 0) =
            (\<Sum>(a, b) \<leftarrow> consec (y # B). 0)"
        by (intro arg_cong [where f = sum_list] map_cong refl) (auto simp: nothi)
      also have "\<dots> = 0" by (induction "consec (y # B)") auto
      finally show ?thesis using True hx xy by (simp add: consec_Cons2)
    next
      case hx: False
      with "3.prems" have hi: "hi \<in> set (y # B)" by simp
      with "3.prems"(1) have yhi: "y \<le> hi" by auto
      have ge: "lo \<le> a" "y \<le> a" if "(a, b) \<in> set (consec (y # B))" for a b
        using later(1,2) [OF that] True by simp_all
      have "(\<Sum>(a, b) \<leftarrow> consec (y # B). if lo \<le> a \<and> b \<le> hi then F b - F a else 0) =
            (\<Sum>(a, b) \<leftarrow> consec (y # B). if y \<le> a \<and> b \<le> hi then F b - F a else 0)"
        by (intro arg_cong [where f = sum_list] map_cong refl) (auto simp: ge)
      also have "\<dots> = F hi - F y"
        using s hi yhi by (intro "3.IH"(2)) simp_all
      finally show ?thesis using True yhi by (simp add: consec_Cons2)
    qed
  next
    case False
    with "3.prems" have lo: "lo \<in> set (y # B)" by simp
    with above have "x < lo" by blast
    with "3.prems" have hi: "hi \<in> set (y # B)" by auto
    have "(\<Sum>(a, b) \<leftarrow> consec (y # B). if lo \<le> a \<and> b \<le> hi then F b - F a else 0) = F hi - F lo"
      using s lo hi "3.prems"(4) by (intro "3.IH"(2))
    with \<open>x < lo\<close> show ?thesis by (simp add: consec_Cons2)
  qed
qed


lemma sum_list_swap:
  "(\<Sum>x \<leftarrow> xs. \<Sum>y \<leftarrow> ys. f x y) = (\<Sum>y \<leftarrow> ys. \<Sum>x \<leftarrow> xs. (f x y :: real))"
  by (induction xs) (simp_all add: sum_list_addf)

lemma signed_area_trapezoids:
  "signed_area p = (\<Sum>(u, v) \<leftarrow> edges p. (fst u - fst v) * (snd u + snd v) / 2)"
proof -
  have h: "(fst u - fst v) * (snd u + snd v) / 2 =
        (fst u * snd v - fst v * snd u) / 2 + (fst u * snd u / 2 - fst v * snd v / 2)" for u v :: point
    by (simp add: algebra_simps diff_divide_distrib add_divide_distrib)
  have "(\<Sum>(u, v) \<leftarrow> edges p. (fst u - fst v) * (snd u + snd v) / 2) =
      (\<Sum>(u, v) \<leftarrow> edges p. (fst u * snd v - fst v * snd u) / 2
          + (fst u * snd u / 2 - fst v * snd v / 2))"
    by (simp only: h)
  also have "\<dots> = (\<Sum>(u, v) \<leftarrow> edges p. (fst u * snd v - fst v * snd u) / 2)
      + (\<Sum>(u, v) \<leftarrow> edges p. fst u * snd u / 2 - fst v * snd v / 2)"
    by (simp add: sum_list_addf case_prod_unfold)
  also have "(\<Sum>(u, v) \<leftarrow> edges p. fst u * snd u / 2 - fst v * snd v / 2) = 0"
    by (rule sum_edges_diff [of "\<lambda>w. fst w * snd w / 2"])
  also have "(\<Sum>(u, v) \<leftarrow> edges p. (fst u * snd v - fst v * snd u) / 2) = signed_area p"
  proof -
    have "(\<Sum>(u, v) \<leftarrow> edges p. (fst u * snd v - fst v * snd u) / 2) =
          (\<Sum>(u, v) \<leftarrow> edges p. (1 / 2) * (fst u * snd v - fst v * snd u))"
      by simp
    also have "\<dots> = (1 / 2) * (\<Sum>(u, v) \<leftarrow> edges p. fst u * snd v - fst v * snd u)"
      by (simp only: case_prod_unfold sum_list_const_mult)
    finally show ?thesis by (simp add: signed_area_def)
  qed
  finally show ?thesis by simp
qed

lemma height_slope:
  "edge_height u v t = snd u + (t - fst u) * ((snd v - snd u) / (fst v - fst u))"
  by (simp add: edge_height_def)

lemma slice_antiderivative:
  "(b - a) * (y + ((a + b) / 2 - x) * s) =
   (y * b + (b - x)\<^sup>2 * s / 2) - (y * a + (a - x)\<^sup>2 * s / (2 :: real))"
  by (simp add: power2_eq_square field_simps)

lemma edge_integral:
  assumes B: "sorted_wrt (<) B" and u: "fst u \<in> set B" and v: "fst v \<in> set B"
  shows "(\<Sum>(a, b) \<leftarrow> consec B. (b - a) * edge_term ((a + b) / 2) (u, v)) =
         (fst u - fst v) * (snd u + snd v) / 2"
proof -
  define s where "s = (snd v - snd u) / (fst v - fst u)"
  define G where "G t = snd u * t + (t - fst u)\<^sup>2 * s / 2" for t
  have hG: "(b - a) * edge_height u v ((a + b) / 2) = G b - G a" for a b
    unfolding G_def height_slope s_def [symmetric] by (rule slice_antiderivative)
  have total: "G (fst v) - G (fst u) = (fst v - fst u) * (snd u + snd v) / 2" if "fst u \<noteq> fst v"
  proof -
    from that have "(fst v - fst u) * s = snd v - snd u" by (simp add: s_def)
    then have "(fst v - fst u)\<^sup>2 * s = (fst v - fst u) * (snd v - snd u)"
      by (simp add: power2_eq_square mult.assoc)
    then show ?thesis by (simp add: G_def algebra_simps)
  qed
  consider "fst u < fst v" | "fst v < fst u" | "fst u = fst v" by linarith
  then show ?thesis
  proof cases
    case 1
    define F where "F t = - G t" for t
    have tm: "(b - a) * edge_term ((a + b) / 2) (u, v) =
                (if fst u \<le> a \<and> b \<le> fst v then F b - F a else 0)"
      if "(a, b) \<in> set (consec B)" for a b
    proof -
      from consec_gap [OF B that] have ab: "a < b"
        and gap: "\<forall>x \<in> set B. x \<le> a \<or> b \<le> x" by auto
      from gap u v have gu: "fst u \<le> a \<or> b \<le> fst u" and gv: "fst v \<le> a \<or> b \<le> fst v" by auto
      have r: "going_right ((a + b) / 2) (u, v) = (fst u \<le> a \<and> b \<le> fst v)"
        using ab gu gv 1 by (auto simp: going_right_def)
      have l: "\<not> going_left ((a + b) / 2) (u, v)"
        using 1 by (auto simp: going_left_def)
      have "(b - a) * (- edge_height u v ((a + b) / 2)) = F b - F a"
        using hG [of b a] by (simp add: F_def)
      with r l show ?thesis by (simp add: edge_term_def)
    qed
    have "(\<Sum>(a, b) \<leftarrow> consec B. (b - a) * edge_term ((a + b) / 2) (u, v)) =
          (\<Sum>(a, b) \<leftarrow> consec B. if fst u \<le> a \<and> b \<le> fst v then F b - F a else 0)"
      by (intro arg_cong [where f = sum_list] map_cong refl) (auto simp: tm)
    also have "\<dots> = F (fst v) - F (fst u)"
      using B u v 1 by (intro telescope) simp_all
    also have "\<dots> = (fst u - fst v) * (snd u + snd v) / 2"
      using total 1 by (simp add: F_def algebra_simps)
    finally show ?thesis .
  next
    case 2
    have tm: "(b - a) * edge_term ((a + b) / 2) (u, v) =
                (if fst v \<le> a \<and> b \<le> fst u then G b - G a else 0)"
      if "(a, b) \<in> set (consec B)" for a b
    proof -
      from consec_gap [OF B that] have ab: "a < b"
        and gap: "\<forall>x \<in> set B. x \<le> a \<or> b \<le> x" by auto
      from gap u v have gu: "fst u \<le> a \<or> b \<le> fst u" and gv: "fst v \<le> a \<or> b \<le> fst v" by auto
      have l: "going_left ((a + b) / 2) (u, v) = (fst v \<le> a \<and> b \<le> fst u)"
        using ab gu gv 2 by (auto simp: going_left_def)
      have r: "\<not> going_right ((a + b) / 2) (u, v)"
        using 2 by (auto simp: going_right_def)
      from l r hG [of b a] show ?thesis by (simp add: edge_term_def)
    qed
    have "(\<Sum>(a, b) \<leftarrow> consec B. (b - a) * edge_term ((a + b) / 2) (u, v)) =
          (\<Sum>(a, b) \<leftarrow> consec B. if fst v \<le> a \<and> b \<le> fst u then G b - G a else 0)"
      by (intro arg_cong [where f = sum_list] map_cong refl) (auto simp: tm)
    also have "\<dots> = G (fst u) - G (fst v)"
      using B u v 2 by (intro telescope) simp_all
    also have "\<dots> = (fst u - fst v) * (snd u + snd v) / 2"
      using total 2 by (simp add: algebra_simps)
    finally show ?thesis .
  next
    case 3
    then have "edge_term t (u, v) = 0" for t
      by (auto simp: edge_term_def going_left_def going_right_def)
    then have "(\<Sum>(a, b) \<leftarrow> consec B. (b - a) * edge_term ((a + b) / 2) (u, v)) =
               (\<Sum>(a, b) \<leftarrow> consec B. 0)"
      by simp
    also have "\<dots> = 0" by (induction "consec B") auto
    finally show ?thesis using 3 by simp
  qed
qed

lemma area_slices:
  assumes B: "sorted_wrt (<) B" and xs: "\<forall>w \<in> set p. fst w \<in> set B"
  shows "signed_area p = (\<Sum>(a, b) \<leftarrow> consec B. (b - a) * slice_width p ((a + b) / 2))"
proof -
  have mem: "fst u \<in> set B \<and> fst v \<in> set B" if "(u, v) \<in> set (edges p)" for u v
  proof -
    from that have "u \<in> set p" "v \<in> set (rotate1 p)"
      unfolding edges_def by (auto dest: set_zip_leftD set_zip_rightD)
    with xs show ?thesis by simp
  qed
  have "signed_area p = (\<Sum>(u, v) \<leftarrow> edges p. (fst u - fst v) * (snd u + snd v) / 2)"
    by (rule signed_area_trapezoids)
  also have "\<dots> = (\<Sum>e \<leftarrow> edges p. \<Sum>c \<leftarrow> consec B.
                      (snd c - fst c) * edge_term ((fst c + snd c) / 2) e)"
  proof (intro arg_cong [where f = sum_list] map_cong refl)
    fix e assume e: "e \<in> set (edges p)"
    obtain u v where uv: "e = (u, v)" by (cases e)
    from mem e uv have "fst u \<in> set B" "fst v \<in> set B" by auto
    from edge_integral [OF B this]
    show "(case e of (u, v) \<Rightarrow> (fst u - fst v) * (snd u + snd v) / 2) =
          (\<Sum>c \<leftarrow> consec B. (snd c - fst c) * edge_term ((fst c + snd c) / 2) e)"
      by (simp add: uv case_prod_unfold)
  qed
  also have "\<dots> = (\<Sum>c \<leftarrow> consec B. \<Sum>e \<leftarrow> edges p.
                      (snd c - fst c) * edge_term ((fst c + snd c) / 2) e)"
    by (rule sum_list_swap)
  also have "\<dots> = (\<Sum>(a, b) \<leftarrow> consec B. (b - a) * slice_width p ((a + b) / 2))"
    by (simp add: slice_width_def sum_list_const_mult case_prod_unfold)
  finally show ?thesis .
qed


lemma edge_vertices:
  assumes "(u, v) \<in> set (edges p)"
  shows "u \<in> set p" "v \<in> set p"
proof -
  from assms have "u \<in> set p" "v \<in> set (rotate1 p)"
    unfolding edges_def by (auto dest: set_zip_leftD set_zip_rightD)
  then show "u \<in> set p" "v \<in> set p" by simp_all
qed

lemma slope_times:
  assumes "fst (u :: point) \<noteq> fst (v :: point)"
  shows "(fst v - fst u) * ((snd v - snd u) / (fst v - fst u)) = snd v - snd u"
proof -
  from assms have "fst v - fst u \<noteq> 0" by simp
  then show ?thesis by simp
qed

lemma side_vertical:
  assumes "fst u \<noteq> fst v"
  shows "side u v (t, y) = (fst v - fst u) * (y - edge_height u v t)"
proof -
  define s where "s = (snd v - snd u) / (fst v - fst u)"
  have e: "(fst v - fst u) * s = snd v - snd u"
    unfolding s_def using assms by (rule slope_times)
  have "(fst v - fst u) * (y - (snd u + (t - fst u) * s)) =
        (fst v - fst u) * (y - snd u) - (t - fst u) * ((fst v - fst u) * s)"
    by (simp add: algebra_simps)
  also have "\<dots> = (fst v - fst u) * (y - snd u) - (t - fst u) * (snd v - snd u)"
    by (simp only: e)
  finally show ?thesis
    by (simp add: side_def height_slope s_def mult.commute)
qed

lemma side_affine_pt:
  "side a b ((1 - l) * fst u + l * fst v, (1 - l) * snd u + l * snd v) =
     (1 - l) * side a b u + l * side a b v"
  by (simp add: side_def algebra_simps)

lemma crossing_point:
  assumes "crossing t (u, v)"
  shows "\<exists>l. 0 < l \<and> l < 1 \<and>
    (\<forall>a b. side a b (t, edge_height u v t) = (1 - l) * side a b u + l * side a b v) \<and>
    edge_height u v t = (1 - l) * snd u + l * snd v"
proof -
  define l where "l = (t - fst u) / (fst v - fst u)"
  define s where "s = (snd v - snd u) / (fst v - fst u)"
  from assms have ne: "fst u \<noteq> fst v"
    by (auto simp: crossing_def going_right_def going_left_def)
  from assms have l0: "0 < l" and l1: "l < 1"
    unfolding l_def crossing_def going_right_def going_left_def
    by (auto simp: field_simps)
  from ne have lt: "l * (fst v - fst u) = t - fst u" by (simp add: l_def)
  then have tx: "t = (1 - l) * fst u + l * fst v" by (simp add: algebra_simps)
  have e: "(fst v - fst u) * s = snd v - snd u"
    unfolding s_def using ne by (rule slope_times)
  have "edge_height u v t = snd u + (l * (fst v - fst u)) * s"
    by (simp only: height_slope s_def lt)
  also have "\<dots> = snd u + l * ((fst v - fst u) * s)" by (simp add: mult.assoc)
  also have "\<dots> = snd u + l * (snd v - snd u)" by (simp only: e)
  also have "\<dots> = (1 - l) * snd u + l * snd v" by (simp add: algebra_simps)
  finally have hy: "edge_height u v t = (1 - l) * snd u + l * snd v" .
  have sd: "side a b (t, edge_height u v t) = (1 - l) * side a b u + l * side a b v" for a b
  proof -
    have "side a b (t, edge_height u v t) =
          side a b ((1 - l) * fst u + l * fst v, (1 - l) * snd u + l * snd v)"
      using tx hy by simp
    then show ?thesis by (simp only: side_affine_pt)
  qed
  from l0 l1 sd hy show ?thesis by blast
qed

lemma on_edge_nonneg:
  assumes "crossing t (u, v)" "0 \<le> side a b u" "0 \<le> side a b v"
  shows "0 \<le> side a b (t, edge_height u v t)"
proof -
  from assms(1) obtain l where l: "0 < l" "l < 1"
    and s: "side a b (t, edge_height u v t) = (1 - l) * side a b u + l * side a b v"
    using crossing_point by blast
  from l assms(2,3) show ?thesis unfolding s by (intro add_nonneg_nonneg mult_nonneg_nonneg) simp_all
qed

lemma on_edge_neg:
  assumes "crossing t (u, v)" "side a b u < 0" "side a b v < 0"
  shows "side a b (t, edge_height u v t) < 0"
proof -
  from assms(1) obtain l where l: "0 < l" "l < 1"
    and s: "side a b (t, edge_height u v t) = (1 - l) * side a b u + l * side a b v"
    using crossing_point by blast
  from l assms(2) have "(1 - l) * side a b u < 0" by (simp add: mult_pos_neg)
  moreover from l assms(3) have "l * side a b v < 0" by (simp add: mult_pos_neg)
  ultimately show ?thesis unfolding s by simp
qed

lemma on_edge_zero:
  assumes "crossing t (u, v)" "0 \<le> side a b u" "0 \<le> side a b v"
    "side a b (t, edge_height u v t) = 0"
  shows "side a b u = 0" "side a b v = 0"
proof -
  from assms(1) obtain l where l: "0 < l" "l < 1"
    and s: "side a b (t, edge_height u v t) = (1 - l) * side a b u + l * side a b v"
    using crossing_point by blast
  from l assms(2) have 1: "0 \<le> (1 - l) * side a b u" by simp
  from l assms(3) have 2: "0 \<le> l * side a b v" by simp
  from assms(4) s 1 2 have "(1 - l) * side a b u = 0" "l * side a b v = 0" by linarith+
  with l show "side a b u = 0" "side a b v = 0" by simp_all
qed

lemma on_edge_between:
  assumes "crossing t (u, v)" "lo \<le> snd u" "snd u \<le> hi" "lo \<le> snd v" "snd v \<le> hi"
  shows "lo \<le> edge_height u v t" "edge_height u v t \<le> hi"
proof -
  from assms(1) obtain l where l: "0 < l" "l < 1"
    and h: "edge_height u v t = (1 - l) * snd u + l * snd v"
    using crossing_point by blast
  have "(1 - l) * lo + l * lo \<le> (1 - l) * snd u + l * snd v"
    using l assms by (intro add_mono mult_left_mono) simp_all
  then show "lo \<le> edge_height u v t" unfolding h by (simp add: algebra_simps)
  have "(1 - l) * snd u + l * snd v \<le> (1 - l) * hi + l * hi"
    using l assms by (intro add_mono mult_left_mono) simp_all
  then show "edge_height u v t \<le> hi" unfolding h by (simp add: algebra_simps)
qed


lemma count_filter:
  "sum_list (map (\<lambda>e. if P e then 1 else 0 :: real) xs) = real (length (filter P xs))"
  by (induction xs) simp_all

lemma crossing_count:
  assumes "generic p t"
  shows "length (filter (going_right t) (edges p)) = length (filter (going_left t) (edges p))"
proof -
  define ind :: "point \<Rightarrow> real" where "ind w = (if fst w < t then 1 else 0)" for w
  have each: "ind (fst e) - ind (snd e) =
      (if going_right t e then 1 else 0) - (if going_left t e then 1 else 0)"
    if "e \<in> set (edges p)" for e
  proof -
    obtain u v where e: "e = (u, v)" by (cases e)
    from that e edge_vertices [of u v p] have "u \<in> set p" "v \<in> set p" by auto
    with assms have "fst u \<noteq> t" "fst v \<noteq> t" by (auto simp: generic_def)
    then show ?thesis
      by (auto simp: e ind_def going_right_def going_left_def)
  qed
  have "(\<Sum>e \<leftarrow> edges p. (if going_right t e then 1 else 0) - (if going_left t e then 1 else 0 :: real))
        = (\<Sum>e \<leftarrow> edges p. ind (fst e) - ind (snd e))"
    by (intro arg_cong [where f = sum_list] map_cong refl) (simp add: each)
  also have "\<dots> = (\<Sum>(u, v) \<leftarrow> edges p. ind u - ind v)"
    by (simp add: case_prod_unfold)
  also have "\<dots> = 0" by (rule sum_edges_diff)
  finally have "real (length (filter (going_right t) (edges p))) -
                real (length (filter (going_left t) (edges p))) = 0"
    by (simp add: sum_list_subtractf count_filter)
  then show ?thesis by simp
qed

lemma convex_ccw_strict:
  assumes c: "convex_ccw p" and e: "(u, v) \<in> set (edges p)" and w: "w \<in> set p"
    and z: "side u v w = 0"
  shows "w = u \<or> w = v"
proof (rule ccontr)
  assume n: "\<not> (w = u \<or> w = v)"
  from c have "\<forall>e \<in> set (edges p). \<forall>w \<in> set p. w \<noteq> fst e \<and> w \<noteq> snd e \<longrightarrow> 0 < side (fst e) (snd e) w"
    by (simp add: convex_ccw_def case_prod_unfold)
  from this [rule_format, OF e w] n have "0 < side u v w" by simp
  with z show False by simp
qed

lemma right_unique:
  assumes c: "convex_ccw p" and e: "(u, v) \<in> set (edges p)" and e': "(u', v') \<in> set (edges p)"
    and r: "going_right t (u, v)" and r': "going_right t (u', v')"
  shows "(u, v) = (u', v')"
proof -
  note uv = edge_vertices [OF e] and uv' = edge_vertices [OF e']
  from r have x: "fst u < t" "t < fst v" by (simp_all add: going_right_def)
  from r' have x': "fst u' < t" "t < fst v'" by (simp_all add: going_right_def)
  from r have cr: "crossing t (u, v)" by (simp add: crossing_def)
  from r' have cr': "crossing t (u', v')" by (simp add: crossing_def)
  from x have ne: "fst u \<noteq> fst v" by simp
  from x' have ne': "fst u' \<noteq> fst v'" by simp
  have "0 \<le> side u v (t, edge_height u' v' t)"
    using cr' convex_ccw_side_nonneg [OF c e uv'(1)] convex_ccw_side_nonneg [OF c e uv'(2)]
    by (rule on_edge_nonneg)
  then have "0 \<le> (fst v - fst u) * (edge_height u' v' t - edge_height u v t)"
    by (simp only: side_vertical [OF ne])
  with x have 1: "edge_height u v t \<le> edge_height u' v' t" by (simp add: zero_le_mult_iff)
  have "0 \<le> side u' v' (t, edge_height u v t)"
    using cr convex_ccw_side_nonneg [OF c e' uv(1)] convex_ccw_side_nonneg [OF c e' uv(2)]
    by (rule on_edge_nonneg)
  then have "0 \<le> (fst v' - fst u') * (edge_height u v t - edge_height u' v' t)"
    by (simp only: side_vertical [OF ne'])
  with x' have 2: "edge_height u' v' t \<le> edge_height u v t" by (simp add: zero_le_mult_iff)
  from 1 2 have "side u v (t, edge_height u' v' t) = 0"
    by (simp add: side_vertical [OF ne])
  from on_edge_zero [OF cr' convex_ccw_side_nonneg [OF c e uv'(1)]
      convex_ccw_side_nonneg [OF c e uv'(2)] this]
  have z: "side u v u' = 0" "side u v v' = 0" .
  from convex_ccw_strict [OF c e uv'(1) z(1)] have "u' = u \<or> u' = v" .
  with x x' have "u' = u" by auto
  from convex_ccw_strict [OF c e uv'(2) z(2)] have "v' = u \<or> v' = v" .
  with x x' have "v' = v" by auto
  with \<open>u' = u\<close> show ?thesis by simp
qed

lemma left_unique:
  assumes c: "convex_ccw p" and e: "(u, v) \<in> set (edges p)" and e': "(u', v') \<in> set (edges p)"
    and r: "going_left t (u, v)" and r': "going_left t (u', v')"
  shows "(u, v) = (u', v')"
proof -
  note uv = edge_vertices [OF e] and uv' = edge_vertices [OF e']
  from r have x: "fst v < t" "t < fst u" by (simp_all add: going_left_def)
  from r' have x': "fst v' < t" "t < fst u'" by (simp_all add: going_left_def)
  from r have cr: "crossing t (u, v)" by (simp add: crossing_def)
  from r' have cr': "crossing t (u', v')" by (simp add: crossing_def)
  from x have ne: "fst u \<noteq> fst v" by simp
  from x' have ne': "fst u' \<noteq> fst v'" by simp
  have "0 \<le> side u v (t, edge_height u' v' t)"
    using cr' convex_ccw_side_nonneg [OF c e uv'(1)] convex_ccw_side_nonneg [OF c e uv'(2)]
    by (rule on_edge_nonneg)
  then have "0 \<le> (fst v - fst u) * (edge_height u' v' t - edge_height u v t)"
    by (simp only: side_vertical [OF ne])
  with x have 1: "edge_height u' v' t \<le> edge_height u v t" by (simp add: zero_le_mult_iff)
  have "0 \<le> side u' v' (t, edge_height u v t)"
    using cr convex_ccw_side_nonneg [OF c e' uv(1)] convex_ccw_side_nonneg [OF c e' uv(2)]
    by (rule on_edge_nonneg)
  then have "0 \<le> (fst v' - fst u') * (edge_height u v t - edge_height u' v' t)"
    by (simp only: side_vertical [OF ne'])
  with x' have 2: "edge_height u v t \<le> edge_height u' v' t" by (simp add: zero_le_mult_iff)
  from 1 2 have "side u v (t, edge_height u' v' t) = 0"
    by (simp add: side_vertical [OF ne])
  from on_edge_zero [OF cr' convex_ccw_side_nonneg [OF c e uv'(1)]
      convex_ccw_side_nonneg [OF c e uv'(2)] this]
  have z: "side u v u' = 0" "side u v v' = 0" .
  from convex_ccw_strict [OF c e uv'(1) z(1)] have "u' = u \<or> u' = v" .
  with x x' have "u' = u" by auto
  from convex_ccw_strict [OF c e uv'(2) z(2)] have "v' = u \<or> v' = v" .
  with x x' have "v' = v" by auto
  with \<open>u' = u\<close> show ?thesis by simp
qed

lemma at_most_one:
  assumes "distinct xs" "\<forall>x \<in> set xs. \<forall>y \<in> set xs. x = y"
  shows "length xs \<le> 1"
proof (rule ccontr)
  assume "\<not> length xs \<le> 1"
  then obtain x y zs where xs: "xs = x # y # zs"
    by (cases xs; cases "tl xs") auto
  from assms(1) have "x \<noteq> y" by (simp add: xs)
  moreover from assms(2) [rule_format, of x y] have "x = y" by (simp add: xs)
  ultimately show False by simp
qed

lemma distinct_edges: "distinct p \<Longrightarrow> distinct (edges p)"
  unfolding edges_def by (rule distinct_zipI1)

lemma slice_structure:
  assumes c: "convex_ccw p" and g: "generic p t"
  shows "(filter (going_right t) (edges p) = [] \<and> filter (going_left t) (edges p) = []) \<or>
         (\<exists>eR eL. filter (going_right t) (edges p) = [eR] \<and> filter (going_left t) (edges p) = [eL])"
proof -
  from c have d: "distinct (edges p)" by (simp add: convex_ccw_def distinct_edges)
  have "length (filter (going_right t) (edges p)) \<le> 1"
  proof (rule at_most_one)
    show "distinct (filter (going_right t) (edges p))" using d by simp
    show "\<forall>x \<in> set (filter (going_right t) (edges p)).
            \<forall>y \<in> set (filter (going_right t) (edges p)). x = y"
    proof (intro ballI)
      fix x y
      assume x: "x \<in> set (filter (going_right t) (edges p))"
        and y: "y \<in> set (filter (going_right t) (edges p))"
      obtain u v u' v' where xy: "x = (u, v)" "y = (u', v')" by (cases x, cases y) auto
      from x y show "x = y" unfolding xy
        by (intro right_unique [OF c, of u v u' v' t]) simp_all
    qed
  qed
  moreover have "length (filter (going_left t) (edges p)) \<le> 1"
  proof (rule at_most_one)
    show "distinct (filter (going_left t) (edges p))" using d by simp
    show "\<forall>x \<in> set (filter (going_left t) (edges p)).
            \<forall>y \<in> set (filter (going_left t) (edges p)). x = y"
    proof (intro ballI)
      fix x y
      assume x: "x \<in> set (filter (going_left t) (edges p))"
        and y: "y \<in> set (filter (going_left t) (edges p))"
      obtain u v u' v' where xy: "x = (u, v)" "y = (u', v')" by (cases x, cases y) auto
      from x y show "x = y" unfolding xy
        by (intro left_unique [OF c, of u v u' v' t]) simp_all
    qed
  qed
  moreover note crossing_count [OF g]
  ultimately show ?thesis
    by (cases "filter (going_right t) (edges p)"; cases "filter (going_left t) (edges p)") auto
qed

lemma width_top_bottom: "slice_width p t = slice_top p t - slice_bottom p t"
proof -
  have "edge_term t e = (if going_left t e then edge_height (fst e) (snd e) t else 0)
                        - (if going_right t e then edge_height (fst e) (snd e) t else 0)" for e
    by (auto simp: edge_term_def going_left_def going_right_def)
  then have "slice_width p t =
      (\<Sum>e \<leftarrow> edges p. (if going_left t e then edge_height (fst e) (snd e) t else 0)
                        - (if going_right t e then edge_height (fst e) (snd e) t else 0))"
    by (simp add: slice_width_def)
  also have "\<dots> = (\<Sum>e \<leftarrow> edges p. if going_left t e then edge_height (fst e) (snd e) t else 0)
                 - (\<Sum>e \<leftarrow> edges p. if going_right t e then edge_height (fst e) (snd e) t else 0)"
    by (rule sum_list_subtractf)
  finally show ?thesis
    by (simp add: slice_top_def slice_bottom_def sum_list_map_filter')
qed


lemma slice_cases:
  assumes c: "convex_ccw p" and g: "generic p t"
  shows "(\<not> crossed p t \<and> slice_bottom p t = 0 \<and> slice_top p t = 0) \<or>
         (\<exists>uR vR uL vL. crossed p t \<and>
            (uR, vR) \<in> set (edges p) \<and> going_right t (uR, vR) \<and> slice_bottom p t = edge_height uR vR t \<and>
            (uL, vL) \<in> set (edges p) \<and> going_left t (uL, vL) \<and> slice_top p t = edge_height uL vL t)"
proof -
  from slice_structure [OF c g] show ?thesis
  proof
    assume "filter (going_right t) (edges p) = [] \<and> filter (going_left t) (edges p) = []"
    then show ?thesis by (simp add: crossed_def slice_bottom_def slice_top_def)
  next
    assume "\<exists>eR eL. filter (going_right t) (edges p) = [eR] \<and>
                    filter (going_left t) (edges p) = [eL]"
    then obtain eR eL where R: "filter (going_right t) (edges p) = [eR]"
      and L: "filter (going_left t) (edges p) = [eL]" by blast
    obtain uR vR where eR: "eR = (uR, vR)" by (cases eR)
    obtain uL vL where eL: "eL = (uL, vL)" by (cases eL)
    have "eR \<in> set (filter (going_right t) (edges p))" by (simp add: R)
    then have 1: "(uR, vR) \<in> set (edges p)" "going_right t (uR, vR)" by (simp_all add: eR)
    have "eL \<in> set (filter (going_left t) (edges p))" by (simp add: L)
    then have 2: "(uL, vL) \<in> set (edges p)" "going_left t (uL, vL)" by (simp_all add: eL)
    have 3: "slice_bottom p t = edge_height uR vR t" by (simp add: slice_bottom_def R eR)
    have 4: "slice_top p t = edge_height uL vL t" by (simp add: slice_top_def L eL)
    have 5: "crossed p t" by (simp add: crossed_def R)
    from 1 2 3 4 5 show ?thesis by blast
  qed
qed

lemma side_between:
  assumes "y1 \<le> y" "y \<le> y2"
  shows "\<exists>m. 0 \<le> m \<and> m \<le> 1 \<and>
           (\<forall>a b. side a b (t, y) = (1 - m) * side a b (t, y1) + m * side a b (t, y2))"
proof (cases "y1 = y2")
  case True
  with assms have "y = y1" by simp
  then have "\<forall>a b. side a b (t, y) = (1 - 0) * side a b (t, y1) + 0 * side a b (t, y2)" by simp
  then show ?thesis by (intro exI [of _ 0]) simp
next
  case False
  define m where "m = (y - y1) / (y2 - y1)"
  from False assms have pos: "0 < y2 - y1" by simp
  with assms have m01: "0 \<le> m" "m \<le> 1" by (simp_all add: m_def)
  from pos have "m * (y2 - y1) = y - y1" by (simp add: m_def)
  then have y: "y = (1 - m) * y1 + m * y2" by (simp add: algebra_simps)
  have tt: "t = (1 - m) * t + m * t" by (simp add: algebra_simps)
  have "side a b (t, y) = (1 - m) * side a b (t, y1) + m * side a b (t, y2)" for a b
  proof -
    have "side a b (t, y) = side a b ((1 - m) * fst (t, y1) + m * fst (t, y2),
                                     (1 - m) * snd (t, y1) + m * snd (t, y2))"
      using y tt by simp
    then show ?thesis by (simp only: side_affine_pt)
  qed
  with m01 show ?thesis by blast
qed

lemma between_nonneg:
  assumes "y1 \<le> y" "y \<le> y2" "0 \<le> side a b (t, y1)" "0 \<le> side a b (t, y2)"
  shows "0 \<le> side a b (t, y)"
proof -
  from side_between [OF assms(1,2)] obtain m where m: "0 \<le> m" "m \<le> 1"
    and s: "side a b (t, y) = (1 - m) * side a b (t, y1) + m * side a b (t, y2)" by blast
  from m assms(3,4) show ?thesis unfolding s
    by (intro add_nonneg_nonneg mult_nonneg_nonneg) simp_all
qed

lemma between_neg:
  assumes "y1 \<le> y" "y \<le> y2" "side a b (t, y1) < 0" "side a b (t, y2) < 0"
  shows "side a b (t, y) < 0"
proof -
  from side_between [OF assms(1,2)] obtain m where m: "0 \<le> m" "m \<le> 1"
    and s: "side a b (t, y) = (1 - m) * side a b (t, y1) + m * side a b (t, y2)" by blast
  have "(1 - m) * side a b (t, y1) + m * side a b (t, y2) \<le>
        (1 - m) * max (side a b (t, y1)) (side a b (t, y2)) + m * max (side a b (t, y1)) (side a b (t, y2))"
    using m by (intro add_mono mult_left_mono) simp_all
  also have "\<dots> = max (side a b (t, y1)) (side a b (t, y2))" by (simp add: algebra_simps)
  also have "\<dots> < 0" using assms(3,4) by simp
  finally show ?thesis unfolding s .
qed

lemma bottom_le_top:
  assumes c: "convex_ccw p" and g: "generic p t"
  shows "slice_bottom p t \<le> slice_top p t"
proof -
  from slice_cases [OF c g] show ?thesis
  proof
    assume "\<not> crossed p t \<and> slice_bottom p t = 0 \<and> slice_top p t = 0"
    then show ?thesis by simp
  next
    assume "\<exists>uR vR uL vL. crossed p t \<and>
            (uR, vR) \<in> set (edges p) \<and> going_right t (uR, vR) \<and> slice_bottom p t = edge_height uR vR t \<and>
            (uL, vL) \<in> set (edges p) \<and> going_left t (uL, vL) \<and> slice_top p t = edge_height uL vL t"
    then obtain uR vR uL vL where
      R: "(uR, vR) \<in> set (edges p)" "going_right t (uR, vR)" "slice_bottom p t = edge_height uR vR t" and
      L: "(uL, vL) \<in> set (edges p)" "going_left t (uL, vL)" "slice_top p t = edge_height uL vL t"
      by blast
    from L(2) have cr: "crossing t (uL, vL)" by (simp add: crossing_def)
    from R(2) have x: "fst uR < fst vR" by (simp add: going_right_def)
    note v = edge_vertices [OF L(1)]
    have "0 \<le> side uR vR (t, edge_height uL vL t)"
      using cr convex_ccw_side_nonneg [OF c R(1) v(1)] convex_ccw_side_nonneg [OF c R(1) v(2)]
      by (rule on_edge_nonneg)
    then have "0 \<le> (fst vR - fst uR) * (edge_height uL vL t - edge_height uR vR t)"
      using x by (simp add: side_vertical)
    with x have "edge_height uR vR t \<le> edge_height uL vL t" by (simp add: zero_le_mult_iff)
    then show ?thesis by (simp add: R(3) L(3))
  qed
qed

lemma slice_ends_nonneg:
  assumes c: "convex_ccw p" and g: "generic p t" and cr: "crossed p t"
    and v: "\<forall>w \<in> set p. 0 \<le> side a b w"
  shows "0 \<le> side a b (t, slice_bottom p t)" "0 \<le> side a b (t, slice_top p t)"
proof -
  from slice_cases [OF c g] cr obtain uR vR uL vL where
    R: "(uR, vR) \<in> set (edges p)" "going_right t (uR, vR)" "slice_bottom p t = edge_height uR vR t" and
    L: "(uL, vL) \<in> set (edges p)" "going_left t (uL, vL)" "slice_top p t = edge_height uL vL t"
    by blast
  note vR = edge_vertices [OF R(1)] and vL = edge_vertices [OF L(1)]
  from R(2) have "crossing t (uR, vR)" by (simp add: crossing_def)
  from on_edge_nonneg [OF this] v vR show "0 \<le> side a b (t, slice_bottom p t)" by (simp add: R(3))
  from L(2) have "crossing t (uL, vL)" by (simp add: crossing_def)
  from on_edge_nonneg [OF this] v vL show "0 \<le> side a b (t, slice_top p t)" by (simp add: L(3))
qed

lemma slice_ends_neg:
  assumes c: "convex_ccw p" and g: "generic p t" and cr: "crossed p t"
    and v: "\<forall>w \<in> set p. side a b w < 0"
  shows "side a b (t, slice_bottom p t) < 0" "side a b (t, slice_top p t) < 0"
proof -
  from slice_cases [OF c g] cr obtain uR vR uL vL where
    R: "(uR, vR) \<in> set (edges p)" "going_right t (uR, vR)" "slice_bottom p t = edge_height uR vR t" and
    L: "(uL, vL) \<in> set (edges p)" "going_left t (uL, vL)" "slice_top p t = edge_height uL vL t"
    by blast
  note vR = edge_vertices [OF R(1)] and vL = edge_vertices [OF L(1)]
  from R(2) have "crossing t (uR, vR)" by (simp add: crossing_def)
  from on_edge_neg [OF this] v vR show "side a b (t, slice_bottom p t) < 0" by (simp add: R(3))
  from L(2) have "crossing t (uL, vL)" by (simp add: crossing_def)
  from on_edge_neg [OF this] v vL show "side a b (t, slice_top p t) < 0" by (simp add: L(3))
qed

lemma slice_ends_between:
  assumes c: "convex_ccw p" and g: "generic p t" and cr: "crossed p t"
    and v: "\<forall>w \<in> set p. lo \<le> snd w \<and> snd w \<le> hi"
  shows "lo \<le> slice_bottom p t" "slice_top p t \<le> hi"
proof -
  from slice_cases [OF c g] cr obtain uR vR uL vL where
    R: "(uR, vR) \<in> set (edges p)" "going_right t (uR, vR)" "slice_bottom p t = edge_height uR vR t" and
    L: "(uL, vL) \<in> set (edges p)" "going_left t (uL, vL)" "slice_top p t = edge_height uL vL t"
    by blast
  note vR = edge_vertices [OF R(1)] and vL = edge_vertices [OF L(1)]
  from R(2) have "crossing t (uR, vR)" by (simp add: crossing_def)
  from on_edge_between(1) [OF this, of lo hi] v vR show "lo \<le> slice_bottom p t" by (simp add: R(3))
  from L(2) have "crossing t (uL, vL)" by (simp add: crossing_def)
  from on_edge_between(2) [OF this, of lo hi] v vL show "slice_top p t \<le> hi" by (simp add: L(3))
qed

lemma sep_slices:
  assumes cA: "convex_ccw A" "generic A t" "crossed A t"
    and cB: "convex_ccw B" "generic B t" "crossed B t"
    and s: "sep a b A B"
  shows "slice_top A t < slice_bottom B t \<or> slice_top B t < slice_bottom A t"
proof (rule ccontr)
  assume "\<not> (slice_top A t < slice_bottom B t \<or> slice_top B t < slice_bottom A t)"
  then have o: "slice_bottom B t \<le> slice_top A t" "slice_bottom A t \<le> slice_top B t" by simp_all
  define y where "y = max (slice_bottom A t) (slice_bottom B t)"
  from bottom_le_top [OF cA(1,2)] o have yA: "slice_bottom A t \<le> y" "y \<le> slice_top A t"
    by (simp_all add: y_def)
  from bottom_le_top [OF cB(1,2)] o have yB: "slice_bottom B t \<le> y" "y \<le> slice_top B t"
    by (simp_all add: y_def)
  from s have vA: "\<forall>w \<in> set A. 0 \<le> side a b w" and vB: "\<forall>w \<in> set B. side a b w < 0"
    by (simp_all add: sep_def)
  from between_nonneg [OF yA slice_ends_nonneg [OF cA vA]] have "0 \<le> side a b (t, y)" .
  moreover from between_neg [OF yB slice_ends_neg [OF cB vB]] have "side a b (t, y) < 0" .
  ultimately show False by simp
qed

lemma apart_slices:
  assumes cA: "convex_ccw A" "generic A t" "crossed A t"
    and cB: "convex_ccw B" "generic B t" "crossed B t"
    and s: "strictly_apart A B"
  shows "slice_top A t < slice_bottom B t \<or> slice_top B t < slice_bottom A t"
proof -
  from s obtain a b where "sep a b A B \<or> sep a b B A" unfolding strictly_apart_def by blast
  then show ?thesis
  proof
    assume "sep a b A B"
    from sep_slices [OF cA cB this] show ?thesis .
  next
    assume "sep a b B A"
    from sep_slices [OF cB cA this] show ?thesis by blast
  qed
qed


lemma sum_list_filter_split:
  "sum_list (map f (filter P xs)) + sum_list (map f (filter (\<lambda>x. \<not> P x) xs)) =
   sum_list (map (f :: 'a \<Rightarrow> real) xs)"
  by (induction xs) simp_all

lemma intervals_packing:
  assumes "sorted_wrt disjoint_iv ivs"
    and "\<forall>i \<in> set ivs. lo \<le> fst i \<and> fst i \<le> snd i \<and> snd i \<le> hi"
    and "lo \<le> hi"
  shows "(\<Sum>i \<leftarrow> ivs. snd i - fst i) \<le> hi - lo"
  using assms
proof (induction "length ivs" arbitrary: ivs lo hi rule: less_induct)
  case less
  show ?case
  proof (cases ivs)
    case Nil
    with less.prems show ?thesis by simp
  next
    case (Cons i rest)
    define left where "left = filter (\<lambda>j. snd j < fst i) rest"
    define right where "right = filter (\<lambda>j. \<not> snd j < fst i) rest"
    from less.prems(1) have sr: "sorted_wrt disjoint_iv rest"
      and di: "\<forall>j \<in> set rest. disjoint_iv i j" by (simp_all add: Cons)
    from less.prems(2) have bi: "lo \<le> fst i" "fst i \<le> snd i" "snd i \<le> hi"
      and br: "\<forall>j \<in> set rest. lo \<le> fst j \<and> fst j \<le> snd j \<and> snd j \<le> hi"
      by (simp_all add: Cons)
    have "(\<Sum>j \<leftarrow> left. snd j - fst j) \<le> fst i - lo"
    proof (rule less.hyps)
      show "length left < length ivs" by (simp add: left_def Cons less_Suc_eq_le)
      show "sorted_wrt disjoint_iv left" unfolding left_def using sr by (rule sorted_wrt_filter)
      show "\<forall>j \<in> set left. lo \<le> fst j \<and> fst j \<le> snd j \<and> snd j \<le> fst i"
        using br by (auto simp: left_def)
      show "lo \<le> fst i" by (rule bi(1))
    qed
    moreover have "(\<Sum>j \<leftarrow> right. snd j - fst j) \<le> hi - snd i"
    proof (rule less.hyps)
      show "length right < length ivs" by (simp add: right_def Cons less_Suc_eq_le)
      show "sorted_wrt disjoint_iv right" unfolding right_def using sr by (rule sorted_wrt_filter)
      show "\<forall>j \<in> set right. snd i \<le> fst j \<and> fst j \<le> snd j \<and> snd j \<le> hi"
      proof
        fix j assume "j \<in> set right"
        then have j: "j \<in> set rest" "\<not> snd j < fst i" by (simp_all add: right_def)
        with di have "snd i < fst j" by (auto simp: disjoint_iv_def)
        with br j(1) show "snd i \<le> fst j \<and> fst j \<le> snd j \<and> snd j \<le> hi" by simp
      qed
      show "snd i \<le> hi" by (rule bi(3))
    qed
    moreover have "(\<Sum>j \<leftarrow> left. snd j - fst j) + (\<Sum>j \<leftarrow> right. snd j - fst j) =
                   (\<Sum>j \<leftarrow> rest. snd j - fst j)"
      unfolding left_def right_def by (rule sum_list_filter_split)
    ultimately show ?thesis by (simp add: Cons)
  qed
qed


lemma width_uncrossed:
  assumes c: "convex_ccw p" and g: "generic p t" and n: "\<not> crossed p t"
  shows "slice_width p t = 0"
  using slice_cases [OF c g] n by (auto simp: width_top_bottom)

lemma slice_packing:
  assumes conv: "\<forall>q \<in> set qs. convex_ccw q"
    and gen: "\<forall>q \<in> set qs. generic q t"
    and ap: "sorted_wrt strictly_apart qs"
    and inside: "\<forall>q \<in> set qs. \<forall>w \<in> set q. 0 \<le> snd w \<and> snd w \<le> H"
    and H: "0 \<le> H"
  shows "(\<Sum>q \<leftarrow> qs. slice_width q t) \<le> H"
proof -
  define cs where "cs = filter (\<lambda>q. crossed q t) qs"
  define iv where "iv q = (slice_bottom q t, slice_top q t)" for q
  have mem: "convex_ccw q" "generic q t" "crossed q t"
    "\<forall>w \<in> set q. 0 \<le> snd w \<and> snd w \<le> H" if "q \<in> set cs" for q
    using that conv gen inside by (auto simp: cs_def)
  have "(\<Sum>q \<leftarrow> filter (\<lambda>q. \<not> crossed q t) qs. slice_width q t) =
        (\<Sum>q \<leftarrow> filter (\<lambda>q. \<not> crossed q t) qs. 0)"
    using conv gen by (intro arg_cong [where f = sum_list] map_cong refl)
      (simp add: width_uncrossed)
  then have zero: "(\<Sum>q \<leftarrow> filter (\<lambda>q. \<not> crossed q t) qs. slice_width q t) = 0" by simp
  have "(\<Sum>q \<leftarrow> qs. slice_width q t) =
        (\<Sum>q \<leftarrow> cs. slice_width q t) + (\<Sum>q \<leftarrow> filter (\<lambda>q. \<not> crossed q t) qs. slice_width q t)"
    unfolding cs_def by (rule sum_list_filter_split [symmetric])
  also have "\<dots> = (\<Sum>q \<leftarrow> cs. slice_width q t)" by (simp add: zero)
  also have "\<dots> = (\<Sum>i \<leftarrow> map iv cs. snd i - fst i)"
    by (simp add: comp_def iv_def width_top_bottom)
  also have "\<dots> \<le> H - 0"
  proof (rule intervals_packing)
    have "sorted_wrt strictly_apart cs" unfolding cs_def using ap by (rule sorted_wrt_filter)
    then have "sorted_wrt (\<lambda>A B. disjoint_iv (iv A) (iv B)) cs"
    proof (rule sorted_wrt_mono_rel [rotated])
      fix A B assume "A \<in> set cs" "B \<in> set cs" "strictly_apart A B"
      from apart_slices [OF mem(1,2,3) [OF this(1)] mem(1,2,3) [OF this(2)] this(3)]
      show "disjoint_iv (iv A) (iv B)" by (simp add: disjoint_iv_def iv_def)
    qed
    then show "sorted_wrt disjoint_iv (map iv cs)" by (simp add: sorted_wrt_map)
    show "\<forall>i \<in> set (map iv cs). 0 \<le> fst i \<and> fst i \<le> snd i \<and> snd i \<le> H"
    proof
      fix i assume "i \<in> set (map iv cs)"
      then obtain q where q: "q \<in> set cs" and i: "i = iv q" by auto
      from slice_ends_between [OF mem(1,2,3) [OF q] mem(4) [OF q]]
        bottom_le_top [OF mem(1,2) [OF q]]
      show "0 \<le> fst i \<and> fst i \<le> snd i \<and> snd i \<le> H" by (simp add: i iv_def)
    qed
    show "0 \<le> H" by (rule H)
  qed
  finally show ?thesis by simp
qed

lemma consec_total:
  assumes B: "sorted_wrt (<) B" and lo: "lo \<in> set B" and hi: "hi \<in> set B"
    and range: "\<forall>x \<in> set B. lo \<le> x \<and> x \<le> hi"
  shows "(\<Sum>(a, b) \<leftarrow> consec B. b - a) = hi - lo"
proof -
  from range lo have le: "lo \<le> hi" by simp
  have "(\<Sum>(a, b) \<leftarrow> consec B. b - a) =
        (\<Sum>(a, b) \<leftarrow> consec B. if lo \<le> a \<and> b \<le> hi then b - a else 0)"
  proof (intro arg_cong [where f = sum_list] map_cong refl)
    fix c assume c: "c \<in> set (consec B)"
    obtain a b where ab: "c = (a, b)" by (cases c)
    from consec_gap [OF B c [unfolded ab]] range have "lo \<le> a" "b \<le> hi" by auto
    then show "(case c of (a, b) \<Rightarrow> b - a) =
               (case c of (a, b) \<Rightarrow> if lo \<le> a \<and> b \<le> hi then b - a else 0)"
      by (simp add: ab)
  qed
  also have "\<dots> = hi - lo"
    using telescope [OF B lo hi le, of "\<lambda>x. x"] by simp
  finally show ?thesis .
qed

lemma polygon_packing:
  assumes conv: "\<forall>q \<in> set qs. convex_ccw q"
    and ap: "sorted_wrt strictly_apart qs"
    and inside: "\<forall>q \<in> set qs. \<forall>w \<in> set q. 0 \<le> fst w \<and> fst w \<le> W \<and> 0 \<le> snd w \<and> snd w \<le> H"
    and W: "0 \<le> W" and H: "0 \<le> H"
  shows "(\<Sum>q \<leftarrow> qs. signed_area q) \<le> W * H"
proof -
  define X where "X = insert 0 (insert W (\<Union>q \<in> set qs. fst ` set q))"
  define B where "B = sorted_list_of_set X"
  have fin: "finite X" by (simp add: X_def)
  have B: "sorted_wrt (<) B" by (simp add: B_def)
  have setB: "set B = X" using fin by (simp add: B_def)
  have range: "\<forall>x \<in> set B. 0 \<le> x \<and> x \<le> W"
    using inside W by (auto simp: setB X_def)
  have xs: "\<forall>w \<in> set q. fst w \<in> set B" if "q \<in> set qs" for q
    using that by (auto simp: setB X_def)
  have slice: "(\<Sum>q \<leftarrow> qs. slice_width q ((a + b) / 2)) \<le> H" if c: "(a, b) \<in> set (consec B)" for a b
  proof (rule slice_packing [OF conv _ ap _ H])
    from consec_gap [OF B c] have ab: "a < b" and gap: "\<forall>x \<in> set B. x \<le> a \<or> b \<le> x" by auto
    show "\<forall>q \<in> set qs. generic q ((a + b) / 2)"
    proof
      fix q assume q: "q \<in> set qs"
      show "generic q ((a + b) / 2)"
        unfolding generic_def
      proof
        fix w assume "w \<in> set q"
        with xs [OF q] gap have "fst w \<le> a \<or> b \<le> fst w" by blast
        with ab show "fst w \<noteq> (a + b) / 2" by auto
      qed
    qed
    show "\<forall>q \<in> set qs. \<forall>w \<in> set q. 0 \<le> snd w \<and> snd w \<le> H" using inside by blast
  qed
  have "(\<Sum>q \<leftarrow> qs. signed_area q) =
        (\<Sum>q \<leftarrow> qs. \<Sum>c \<leftarrow> consec B. (snd c - fst c) * slice_width q ((fst c + snd c) / 2))"
  proof (intro arg_cong [where f = sum_list] map_cong refl)
    fix q assume "q \<in> set qs"
    from area_slices [OF B xs [OF this]]
    show "signed_area q = (\<Sum>c \<leftarrow> consec B. (snd c - fst c) * slice_width q ((fst c + snd c) / 2))"
      by (simp add: case_prod_unfold)
  qed
  also have "\<dots> = (\<Sum>c \<leftarrow> consec B. \<Sum>q \<leftarrow> qs. (snd c - fst c) * slice_width q ((fst c + snd c) / 2))"
    by (rule sum_list_swap)
  also have "\<dots> = (\<Sum>c \<leftarrow> consec B. (snd c - fst c) * (\<Sum>q \<leftarrow> qs. slice_width q ((fst c + snd c) / 2)))"
    by (simp add: sum_list_const_mult)
  also have "\<dots> \<le> (\<Sum>c \<leftarrow> consec B. (snd c - fst c) * H)"
  proof (rule sum_list_mono)
    fix c assume c: "c \<in> set (consec B)"
    obtain a b where ab: "c = (a, b)" by (cases c)
    from consec_gap [OF B c [unfolded ab]] have "a < b" by simp
    with slice [OF c [unfolded ab]]
    show "(snd c - fst c) * (\<Sum>q \<leftarrow> qs. slice_width q ((fst c + snd c) / 2)) \<le> (snd c - fst c) * H"
      by (simp add: ab mult_left_mono)
  qed
  also have "\<dots> = (\<Sum>(a, b) \<leftarrow> consec B. b - a) * H"
    by (simp add: sum_list_mult_const case_prod_unfold)
  also have "(\<Sum>(a, b) \<leftarrow> consec B. b - a) = W - 0"
    using B range by (intro consec_total) (simp_all add: setB X_def)
  finally show ?thesis by simp
qed


lemma side_affine_map:
  "side (affine_map a b c d e g u) (affine_map a b c d e g v) (affine_map a b c d e g w) =
     (a * d - b * c) * side u v w"
  by (simp add: side_def affine_map_def algebra_simps)

lemma affine_inj:
  assumes det: "a * d - b * c \<noteq> 0"
  shows "inj (affine_map a b c d e g)"
proof (rule injI)
  fix u v assume eq: "affine_map a b c d e g u = affine_map a b c d e g v"
  then have 1: "a * (fst u - fst v) + b * (snd u - snd v) = 0"
    and 2: "c * (fst u - fst v) + d * (snd u - snd v) = 0"
    by (simp_all add: affine_map_def algebra_simps)
  have "(a * d - b * c) * (fst u - fst v) =
        d * (a * (fst u - fst v) + b * (snd u - snd v)) - b * (c * (fst u - fst v) + d * (snd u - snd v))"
    by (simp add: algebra_simps)
  with 1 2 det have x: "fst u = fst v" by simp
  have "(a * d - b * c) * (snd u - snd v) =
        a * (c * (fst u - fst v) + d * (snd u - snd v)) - c * (a * (fst u - fst v) + b * (snd u - snd v))"
    by (simp add: algebra_simps)
  with 1 2 det have y: "snd u = snd v" by simp
  from x y show "u = v" by (simp add: prod_eq_iff)
qed

lemma edges_map: "edges (map f p) = map (\<lambda>(u, v). (f u, f v)) (edges p)"
  by (simp add: edges_def rotate1_map zip_map_map)

lemma convex_ccwI:
  assumes "3 \<le> length p" "distinct p"
    and "\<And>u v w. (u, v) \<in> set (edges p) \<Longrightarrow> w \<in> set p \<Longrightarrow> w \<noteq> u \<Longrightarrow> w \<noteq> v \<Longrightarrow> 0 < side u v w"
  shows "convex_ccw p"
  unfolding convex_ccw_def using assms by blast

lemma convex_ccw_affine:
  assumes c: "convex_ccw p" and det: "0 < a * d - b * c"
  shows "convex_ccw (map (affine_map a b c d e g) p)"
proof -
  let ?f = "affine_map a b c d e g"
  from det have inj: "inj ?f" by (intro affine_inj) simp
  from c have len: "3 \<le> length p" and dist: "distinct p" by (simp_all add: convex_ccw_def)
  have d': "distinct (map ?f p)"
    using dist inj by (simp add: distinct_map inj_on_subset [OF inj])
  have strict: "0 < side u' v' w'"
    if e: "(u', v') \<in> set (edges (map ?f p))" and w: "w' \<in> set (map ?f p)"
      and ne: "w' \<noteq> u'" "w' \<noteq> v'" for u' v' w'
  proof -
    from e obtain u v where uv: "(u, v) \<in> set (edges p)" and u': "u' = ?f u" and v': "v' = ?f v"
      by (auto simp: edges_map)
    from w obtain w0 where w0: "w0 \<in> set p" and w': "w' = ?f w0" by auto
    from ne have "w0 \<noteq> u" "w0 \<noteq> v" by (auto simp: u' v' w')
    with c uv w0 have "0 < side u v w0" unfolding convex_ccw_def by blast
    with det show ?thesis by (simp add: u' v' w' side_affine_map)
  qed
  show ?thesis
  proof (rule convex_ccwI)
    show "3 \<le> length (map ?f p)" using len by simp
    show "distinct (map ?f p)" by (rule d')
    show "0 < side u' v' w'"
      if "(u', v') \<in> set (edges (map ?f p))" "w' \<in> set (map ?f p)" "w' \<noteq> u'" "w' \<noteq> v'"
      for u' v' w'
      using that by (rule strict)
  qed
qed

lemma small_square:
  assumes "\<bar>x\<bar> < 1 / 2"
  shows "x * x < 1 / (4 :: real)"
proof -
  have "\<bar>x\<bar> * \<bar>x\<bar> < (1 / 2) * (1 / 2)"
    using assms by (intro mult_strict_mono) simp_all
  then show ?thesis by simp
qed

lemma snap_zero: "snap c = 0 \<Longrightarrow> \<bar>c\<bar> < 1 / 2"
  by (auto simp: snap_def split: if_splits)

lemma snap_det:
  "0 < snap (cos r) * snap (cos r) - (- snap (sin r)) * snap (sin r)"
proof -
  have sq: "sin r * sin r + cos r * cos r = 1"
    using sin_cos_squared_add [of r] by (simp add: power2_eq_square)
  have "snap (cos r) \<noteq> 0 \<or> snap (sin r) \<noteq> 0"
  proof (rule ccontr)
    assume "\<not> (snap (cos r) \<noteq> 0 \<or> snap (sin r) \<noteq> 0)"
    then have z: "snap (cos r) = 0" "snap (sin r) = 0" by simp_all
    have "cos r * cos r < 1 / 4" by (rule small_square [OF snap_zero [OF z(1)]])
    moreover have "sin r * sin r < 1 / 4" by (rule small_square [OF snap_zero [OF z(2)]])
    ultimately show False using sq by simp
  qed
  then have "0 < (snap (cos r))\<^sup>2 + (snap (sin r))\<^sup>2"
    by (auto simp: sum_power2_gt_zero_iff)
  then show ?thesis by (simp add: power2_eq_square)
qed


lemma shapely_translate_affine: "shapely_translate p x y = map (affine_map 1 0 0 1 x y) p"
  by (simp add: shapely_translate_def affine_map_def case_prod_unfold)

lemma shapely_rotate_affine:
  "\<exists>e g. shapely_rotate p angle =
     map (affine_map (snap (cos (angle * pi / 180))) (- snap (sin (angle * pi / 180)))
                 (snap (sin (angle * pi / 180))) (snap (cos (angle * pi / 180))) e g) p"
proof (cases "p = []")
  case True
  then show ?thesis by (simp add: shapely_rotate_def)
next
  case False
  obtain x0 y0 where c: "shapely_centroid p = (x0, y0)" by (cases "shapely_centroid p")
  let ?c = "snap (cos (angle * pi / 180))" and ?s = "snap (sin (angle * pi / 180))"
  from False have "shapely_rotate p angle =
      map (affine_map ?c (- ?s) ?s ?c (x0 - x0 * ?c + y0 * ?s) (y0 - x0 * ?s - y0 * ?c)) p"
    by (simp add: shapely_rotate_def Let_def c affine_map_def case_prod_unfold)
  then show ?thesis by blast
qed

lemma convex_ccw_translate: "convex_ccw p \<Longrightarrow> convex_ccw (shapely_translate p x y)"
  unfolding shapely_translate_affine by (rule convex_ccw_affine) simp_all

lemma convex_ccw_rotate:
  assumes "convex_ccw p"
  shows "convex_ccw (shapely_rotate p angle)"
proof -
  from shapely_rotate_affine [of p angle] obtain e g where
    r: "shapely_rotate p angle =
     map (affine_map (snap (cos (angle * pi / 180))) (- snap (sin (angle * pi / 180)))
                 (snap (sin (angle * pi / 180))) (snap (cos (angle * pi / 180))) e g) p"
    by blast
  show ?thesis unfolding r using assms snap_det by (rule convex_ccw_affine)
qed

lemma try_angles_inv:
  assumes "\<forall>p \<in> set placed. P p"
    and "\<forall>(a, r) \<in> set items. P (affinity_translate G r x y)"
  shows "\<forall>p \<in> set (try_angles G container x y items placed). P p"
  using assms by (induction items) (auto simp: Let_def split: if_splits)

lemma fold_y_inv:
  assumes "\<forall>p \<in> set placed. P p"
    and "\<forall>(a, r) \<in> set items. \<forall>x y. P (affinity_translate G r x y)"
  shows "\<forall>p \<in> set (fold (\<lambda>y. try_angles G container x y items) ys placed). P p"
  using assms
proof (induction ys arbitrary: placed)
  case Nil
  then show ?case by simp
next
  case (Cons y ys)
  from Cons.prems have "\<forall>p \<in> set (try_angles G container x y items placed). P p"
    by (intro try_angles_inv) auto
  from Cons.IH [OF this Cons.prems(2)] show ?case by simp
qed

lemma fold_x_inv:
  assumes "\<forall>p \<in> set placed. P p"
    and "\<forall>(a, r) \<in> set items. \<forall>x y. P (affinity_translate G r x y)"
  shows "\<forall>p \<in> set (fold (\<lambda>x. fold (\<lambda>y. try_angles G container x y items) ys) xs placed). P p"
  using assms
proof (induction xs arbitrary: placed)
  case Nil
  then show ?case by simp
next
  case (Cons x xs)
  from Cons.prems
  have "\<forall>p \<in> set (fold (\<lambda>y. try_angles G container x y items) ys placed). P p"
    by (intro fold_y_inv)
  from Cons.IH [OF this Cons.prems(2)] show ?case by simp
qed

lemma place_shapes_inv:
  assumes run: "place_shapes max_size G container shape angles grid_step = Inr ps"
    and cand: "\<forall>a x y. P (affinity_translate G (affinity_rotate G shape a) x y)"
  shows "\<forall>p \<in> set ps. P p"
proof -
  have items: "\<forall>(a, r) \<in> set (create_rotated_shapes G shape angles).
                 \<forall>x y. P (affinity_translate G r x y)"
    using cand by (auto simp: create_rotated_shapes_items)
  have "\<forall>p \<in> set ([] :: 'a list). P p" by simp
  from fold_x_inv [OF this items] run show ?thesis
    by (auto simp: place_shapes_unfold
        split: option.splits sum.splits prod.splits if_splits)
qed

lemma side_flip: "side q p w = - side p q w"
  by (simp add: side_def algebra_simps)

lemma separating_edge_sep:
  assumes "separating_edge A B"
  shows "\<exists>a b. sep a b A B"
proof -
  from assms obtain e where e:
    "(case e of (p, q) \<Rightarrow>
       (list_all (\<lambda>v. 0 \<le> side p q v) A \<and> list_all (\<lambda>v. side p q v < 0) B) \<or>
       (list_all (\<lambda>v. side p q v \<le> 0) A \<and> list_all (\<lambda>v. 0 < side p q v) B))"
    unfolding separating_edge_def list_ex_iff by blast
  obtain p q where pq: "e = (p, q)" by (cases e)
  from e have
    "((\<forall>v \<in> set A. 0 \<le> side p q v) \<and> (\<forall>v \<in> set B. side p q v < 0)) \<or>
     ((\<forall>v \<in> set A. side p q v \<le> 0) \<and> (\<forall>v \<in> set B. 0 < side p q v))"
    unfolding pq by (simp add: list_all_iff)
  then show ?thesis
  proof
    assume "(\<forall>v \<in> set A. 0 \<le> side p q v) \<and> (\<forall>v \<in> set B. side p q v < 0)"
    then have "sep p q A B" by (simp add: sep_def)
    then show ?thesis by blast
  next
    assume "(\<forall>v \<in> set A. side p q v \<le> 0) \<and> (\<forall>v \<in> set B. 0 < side p q v)"
    then have "sep q p A B" by (simp add: sep_def side_flip [of q p])
    then show ?thesis by blast
  qed
qed

lemma not_intersects_apart:
  assumes "A \<noteq> []" "B \<noteq> []" "\<not> shapely_intersects B A"
  shows "strictly_apart A B"
proof -
  from assms have "separating_edge B A \<or> separating_edge A B"
    by (simp add: shapely_intersects_def)
  then show ?thesis
    using separating_edge_sep [of A B] separating_edge_sep [of B A]
    unfolding strictly_apart_def by blast
qed

lemma convex_ccw_nonempty: "convex_ccw p \<Longrightarrow> p \<noteq> []"
  by (auto simp: convex_ccw_def)


lemma apart_sorted_wrt:
  "apart G ps = sorted_wrt (\<lambda>a b. \<not> poly_intersects G b a) ps"
  unfolding apart_def sorted_wrt_iff_nth_less by auto

lemma run_facts:
  assumes W: "0 < W" and H: "0 < H" and c: "convex_ccw shape"
    and run: "place_shapes max_size shapely (box W H) shape angles grid_step = Inr ps"
  shows "\<forall>p \<in> set ps. convex_ccw p"
    and "\<forall>p \<in> set ps. \<forall>w \<in> set p. 0 \<le> fst w \<and> fst w \<le> W \<and> 0 \<le> snd w \<and> snd w \<le> H"
    and "sorted_wrt strictly_apart ps"
proof -
  have "\<forall>a x y. convex_ccw (affinity_translate shapely (affinity_rotate shapely shape a) x y)"
    using c by (simp add: shapely_sel convex_ccw_translate convex_ccw_rotate)
  from place_shapes_inv [OF run, of convex_ccw, OF this]
  show conv: "\<forall>p \<in> set ps. convex_ccw p" .
  from place_shapes_all_contained [OF run]
  have "\<forall>p \<in> set ps. shapely_contains (box W H) p"
    by (simp add: all_contained_def shapely_sel)
  then have cont: "\<forall>p \<in> set ps. \<forall>(x, y) \<in> set p. 0 \<le> x \<and> x \<le> W \<and> 0 \<le> y \<and> y \<le> H"
    by (simp add: shapely_contains_box [OF W H])
  show "\<forall>p \<in> set ps. \<forall>w \<in> set p. 0 \<le> fst w \<and> fst w \<le> W \<and> 0 \<le> snd w \<and> snd w \<le> H"
  proof (intro ballI)
    fix p w assume p: "p \<in> set ps" and w: "w \<in> set p"
    obtain x y where xy: "w = (x, y)" by (cases w)
    from cont p w have "case w of (x, y) \<Rightarrow> 0 \<le> x \<and> x \<le> W \<and> 0 \<le> y \<and> y \<le> H" by blast
    then show "0 \<le> fst w \<and> fst w \<le> W \<and> 0 \<le> snd w \<and> snd w \<le> H" by (simp add: xy)
  qed
  from place_shapes_apart [OF run]
  have "sorted_wrt (\<lambda>a b. \<not> shapely_intersects b a) ps"
    by (simp add: apart_sorted_wrt shapely_sel)
  then show "sorted_wrt strictly_apart ps"
  proof (rule sorted_wrt_mono_rel [rotated])
    fix A B assume "A \<in> set ps" "B \<in> set ps" "\<not> shapely_intersects B A"
    with conv show "strictly_apart A B"
      by (intro not_intersects_apart convex_ccw_nonempty) auto
  qed
qed

lemma run_areas:
  assumes W: "0 < W" and H: "0 < H" and c: "convex_ccw shape"
    and run: "place_shapes max_size shapely (box W H) shape angles grid_step = Inr ps"
  shows "sum_list (map shapely_area ps) \<le> W * H"
    and "\<forall>p \<in> set ps. 0 < shapely_area p"
proof -
  note f = run_facts [OF W H c run]
  have pos: "0 < signed_area p" if "p \<in> set ps" for p
    using f(1) that by (intro convex_ccw_area_pos) simp
  show "\<forall>p \<in> set ps. 0 < shapely_area p"
  proof
    fix p assume "p \<in> set ps"
    from pos [OF this] show "0 < shapely_area p" by (simp add: shapely_area_def)
  qed
  have eq: "map shapely_area ps = map signed_area ps"
    using pos by (intro map_cong refl) (simp add: shapely_area_def less_imp_le)
  from polygon_packing [OF f(1) f(3) f(2)] W H
  have "(\<Sum>q \<leftarrow> ps. signed_area q) \<le> W * H" by simp
  then show "sum_list (map shapely_area ps) \<le> W * H" by (simp only: eq)
qed

lemma sum_list_pos_iff:
  assumes "\<forall>x \<in> set xs. 0 < (x :: real)"
  shows "(sum_list xs = 0) = (xs = [])"
proof (cases xs)
  case Nil
  then show ?thesis by simp
next
  case (Cons x ys)
  from assms have "0 < sum_list xs"
    by (intro sum_list_pos_member [of xs x]) (auto simp: Cons less_imp_le)
  then show ?thesis by (simp add: Cons)
qed

lemma convex_ccw_square5: "convex_ccw square5"
  by (simp add: convex_ccw_def square5_def edges_def side_def)

lemma square5_run:
  "place_shapes max_doubles shapely (box 30 10) square5 [0, 90, 180, 270] 10 =
     Inr [[(0, 0), (5, 0), (5, 5), (0, 5)], [(10, 0), (15, 0), (15, 5), (10, 5)],
          [(20, 0), (25, 0), (25, 5), (20, 5)]]"
proof -
  have b: "poly_bounds shapely (box 30 10) = Some (0, 0, 30, 10)"
    by (simp add: shapely_sel box_def)
  have r: "create_rotated_shapes shapely square5 [0, 90, 180, 270] =
      [(0, square5), (90, shapely_rotate square5 90), (180, shapely_rotate square5 180),
       (270, shapely_rotate square5 270)]"
    by (simp add: create_rotated_shapes_def shapely_sel shapely_rotate_0)
  have ax: "arange max_doubles 0 30 10 = Inr [0, 10, 20]"
    by (simp add: arange_def arange_item_def overflows_def max_doubles_def
        float_round_numeral upt_rec)
  have ay: "arange max_doubles 0 10 10 = Inr [0]"
    by (simp add: arange_def arange_item_def overflows_def max_doubles_def
        float_round_numeral upt_rec)
  show ?thesis
    by (simp add: place_shapes_unfold b r ax ay fold_step del: fold.simps try_angles.simps)
      (simp add: can_place_def shapely_sel shapely_contains_def shapely_intersects_def
        separating_edge_def shapely_translate_def edges_def box_def side_def square5_def)
qed

lemma square5_utilization:
  "utilization shapely [[(0, 0), (5, 0), (5, 5), (0, 5)], [(10, 0), (15, 0), (15, 5), (10, 5)],
          [(20, 0), (25, 0), (25, 5), (20, 5)]] (box 30 10) = Inr 25"
  by (simp add: utilization_def shapely_sel shapely_area_def signed_area_def edges_def box_def)

section \<open>The claims\<close>

text \<open>
  Claim C1 (containment invariant). For a positive grid step and a container that has
  bounds, whenever numpy builds the ranges of the anchors, \<^verbatim>\<open>place_shapes\<close> returns a
  list, and every polygon of that list is contained in the container (the library's
  \<^verbatim>\<open>contains\<close> holds of it), whatever the library computes. No other run returns
  (lemma \<open>place_shapes_returns_iff\<close>): without bounds, or with a range that numpy
  cannot build, the call raises.
\<close>

theorem place_shapes_containment:
  assumes "0 < grid_step" and "poly_bounds G container = Some b"
    and "anchors max_size b grid_step = Inr as"
  shows "\<exists>ps. place_shapes max_size G container shape angles grid_step = Inr ps \<and>
              (\<forall>p \<in> set ps. poly_contains G container p)"
proof -
  from place_shapes_returns [OF assms(2) assms(3)] obtain ps where
    ps: "place_shapes max_size G container shape angles grid_step = Inr ps" by blast
  from place_shapes_all_contained [OF ps] have "\<forall>p \<in> set ps. poly_contains G container p"
    by (simp add: all_contained_def)
  with ps show ?thesis by blast
qed

theorem place_shapes_containment_witness:
  "(0::real) < 1 \<and> poly_bounds shapely (box 3 1) = Some (0, 0, 3, 1) \<and>
   anchors max_doubles (0, 0, 3, 1) 1 = Inr [(0, 0), (1, 0), (2, 0)] \<and>
   (\<exists>ps. place_shapes max_doubles shapely (box 3 1) unit_square [0] 1 = Inr ps \<and>
         (\<forall>p \<in> set ps. poly_contains shapely (box 3 1) p))"
proof -
  have b: "poly_bounds shapely (box 3 1) = Some (0, 0, 3, 1)"
    by (simp add: shapely_sel box_def)
  have s: "(0::real) < 1" by simp
  from place_shapes_containment [where shape = unit_square and angles = "[0]",
      OF s b anchors_small] s b anchors_small
  show ?thesis by simp
qed

text \<open>
  Claim C2 (non-overlap invariant). Let the library's \<^verbatim>\<open>intersects\<close> hold of any two
  polygons that share a point (\<open>pts\<close> gives the points of a polygon). Then, for a positive
  grid step and a container that has bounds, whenever numpy builds the ranges of the
  anchors, \<^verbatim>\<open>place_shapes\<close> returns a list in which any two polygons at different
  positions have interiors with no common point. No other run returns.
\<close>

theorem place_shapes_interiors_disjoint:
  assumes "0 < grid_step" and "poly_bounds G container = Some b"
    and "anchors max_size b grid_step = Inr as"
    and "\<forall>a c. pts a \<inter> pts c \<noteq> {} \<longrightarrow> poly_intersects G a c"
  shows "\<exists>ps. place_shapes max_size G container shape angles grid_step = Inr ps \<and>
     (\<forall>i < length ps. \<forall>j < length ps. i \<noteq> j \<longrightarrow>
        interior_pts (pts (ps ! i)) \<inter> interior_pts (pts (ps ! j)) = {})"
proof -
  from place_shapes_returns [OF assms(2) assms(3)] obtain ps where
    ps: "place_shapes max_size G container shape angles grid_step = Inr ps" by blast
  have "interior_pts (pts (ps ! i)) \<inter> interior_pts (pts (ps ! j)) = {}"
    if "i < length ps" "j < length ps" "i \<noteq> j" for i j
  proof -
    from place_shapes_apart [OF ps] assms(4) that
    have "pts (ps ! i) \<inter> pts (ps ! j) = {}" by (rule apart_pts_disjoint)
    with interior_pts_subset [of "pts (ps ! i)"] interior_pts_subset [of "pts (ps ! j)"]
    show ?thesis by blast
  qed
  with ps show ?thesis by blast
qed

theorem place_shapes_interiors_disjoint_witness:
  "(0::real) < 1 \<and> poly_bounds shapely (box 3 1) = Some (0, 0, 3, 1) \<and>
   anchors max_doubles (0, 0, 3, 1) 1 = Inr [(0, 0), (1, 0), (2, 0)] \<and>
   (\<forall>a c. region a \<inter> region c = {} \<or> poly_intersects shapely a c) \<and>
   place_shapes max_doubles shapely (box 3 1) unit_square [0] 1 =
     Inr [square_at 0 0, square_at 2 0] \<and>
   interior_pts (region (square_at 0 0)) \<inter> interior_pts (region (square_at 2 0)) = {}"
proof -
  have c: "\<forall>a c. region a \<inter> region c \<noteq> {} \<longrightarrow> poly_intersects shapely a c"
    using shapely_intersects_sound by (simp add: shapely_sel)
  have b: "poly_bounds shapely (box 3 1) = Some (0, 0, 3, 1)"
    by (simp add: shapely_sel box_def)
  have s: "(0::real) < 1" by simp
  from place_shapes_interiors_disjoint [where G = shapely and pts = region
      and shape = unit_square and angles = "[0]", OF s b anchors_small c]
  have "\<forall>i < 2. \<forall>j < 2. i \<noteq> j \<longrightarrow>
          interior_pts (region ([square_at 0 0, square_at 2 0] ! i)) \<inter>
          interior_pts (region ([square_at 0 0, square_at 2 0] ! j)) = {}"
    by (simp add: small_run)
  from this [rule_format, of 0 1] c b small_run anchors_small show ?thesis by auto
qed

text \<open>
  Claim C3 (placement predicate). \<^verbatim>\<open>can_place\<close> is true exactly when the container
  contains the candidate and the candidate intersects no polygon of the placed list; the
  answer depends on the list only through the set of its members. In the model of the
  library, for a rectangular container of positive width and height, containment is the
  four inequalities with equality allowed: a candidate that touches the boundary of the
  container is contained. The function only reads its arguments: it is a function from
  them to a truth value.
\<close>

theorem can_place_predicate:
  "can_place G candidate placed container =
     (poly_contains G container candidate \<and> (\<forall>e \<in> set placed. \<not> poly_intersects G candidate e))
   \<and> (0 < w \<and> 0 < h \<longrightarrow>
        can_place shapely c ps (box w h) =
          (c \<noteq> [] \<and> (\<forall>(x, y) \<in> set c. 0 \<le> x \<and> x \<le> w \<and> 0 \<le> y \<and> y \<le> h) \<and>
           (\<forall>e \<in> set ps. \<not> shapely_intersects c e)))"
proof (intro conjI impI)
  show "can_place G candidate placed container =
     (poly_contains G container candidate \<and> (\<forall>e \<in> set placed. \<not> poly_intersects G candidate e))"
    by (rule can_place_iff)
next
  assume wh: "0 < w \<and> 0 < h"
  then have "shapely_contains (box w h) c =
     (c \<noteq> [] \<and> (\<forall>(x, y) \<in> set c. 0 \<le> x \<and> x \<le> w \<and> 0 \<le> y \<and> y \<le> h))"
    by (intro shapely_contains_box) simp_all
  then show "can_place shapely c ps (box w h) =
          (c \<noteq> [] \<and> (\<forall>(x, y) \<in> set c. 0 \<le> x \<and> x \<le> w \<and> 0 \<le> y \<and> y \<le> h) \<and>
           (\<forall>e \<in> set ps. \<not> shapely_intersects c e))"
    by (simp add: can_place_iff shapely_def)
qed

theorem can_place_predicate_witness:
  "(0::real) < 10 \<and>
   can_place shapely (square_at 9 9) [square_at 0 0] (box 10 10) \<and>
   \<not> can_place shapely (square_at 0 1) [square_at 0 0] (box 10 10) \<and>
   \<not> can_place shapely (square_at 9 (19 / 2)) [square_at 0 0] (box 10 10)"
proof -
  have pos: "(0::real) < 10 \<and> (0::real) < 10" by simp
  have ne: "square_at x y \<noteq> []" for x y by (simp add: square_at_def)
  have inside: "(\<forall>(u, v) \<in> set (square_at x y). 0 \<le> u \<and> u \<le> 10 \<and> 0 \<le> v \<and> v \<le> 10) =
                (0 \<le> x \<and> x + 1 \<le> 10 \<and> 0 \<le> y \<and> y + 1 \<le> 10)" for x y
    by (auto simp: square_at_def)
  from can_place_predicate [of shapely "square_at 9 9" "[square_at 0 0]" "box 10 10" 10 10
      "square_at 9 9" "[square_at 0 0]", THEN conjunct2, rule_format, OF pos]
  have 1: "can_place shapely (square_at 9 9) [square_at 0 0] (box 10 10)"
    by (simp add: ne inside shapely_intersects_squares)
  from can_place_predicate [of shapely "square_at 9 9" "[square_at 0 0]" "box 10 10" 10 10
      "square_at 0 1" "[square_at 0 0]", THEN conjunct2, rule_format, OF pos]
  have 2: "\<not> can_place shapely (square_at 0 1) [square_at 0 0] (box 10 10)"
    by (simp add: ne inside shapely_intersects_squares)
  from can_place_predicate [of shapely "square_at 9 9" "[square_at 0 0]" "box 10 10" 10 10
      "square_at 9 (19 / 2)" "[square_at 0 0]", THEN conjunct2, rule_format, OF pos]
  have 3: "\<not> can_place shapely (square_at 9 (19 / 2)) [square_at 0 0] (box 10 10)"
    by (simp add: ne inside shapely_intersects_squares)
  from 1 2 3 show ?thesis by simp
qed

text \<open>
  Claim C4 (end-to-end scenario 1), as stated, fails: with the unit square, the 10 by 10
  container, step 1 and the single angle 0, the run does not place 100 squares. A square
  that shares an edge or a corner with a placed square intersects it and is rejected.
\<close>

theorem scenario_1_not_100:
  "\<not> (\<exists>ps. place_shapes max_doubles shapely (box 10 10) unit_square [0] 1 = Inr ps \<and>
          length ps = 100 \<and> utilization shapely ps (box 10 10) = Inr 100)"
proof -
  have "10 \<le> max_doubles" by (simp add: max_doubles_def)
  then show ?thesis by (simp add: scenario_1_run length_checkerboard)
qed

text \<open>
  Claim C4, amended: the run places exactly the 25 unit squares at the anchors whose two
  coordinates are even, and the utilization is 25 percent (on every machine that can
  allocate the ranges of ten doubles).
\<close>

theorem scenario_1_checkerboard:
  assumes "10 \<le> max_size"
  shows "place_shapes max_size shapely (box 10 10) unit_square [0] 1 = Inr checkerboard \<and>
   length checkerboard = 25 \<and>
   utilization shapely checkerboard (box 10 10) = Inr 25"
  using assms by (simp add: scenario_1_run length_checkerboard utilization_checkerboard)

theorem scenario_1_checkerboard_witness:
  "10 \<le> max_doubles \<and>
   place_shapes max_doubles shapely (box 10 10) unit_square [0] 1 = Inr checkerboard \<and>
   length checkerboard = 25 \<and>
   utilization shapely checkerboard (box 10 10) = Inr 25"
proof -
  have m: "10 \<le> max_doubles" by (simp add: max_doubles_def)
  from scenario_1_checkerboard [OF m] m show ?thesis by simp
qed

text \<open>
  Claim C5 (utilization reporter). Take the model of the library, positive limits of the
  container, and a hull computation that delivers a convex polygon (at least three
  vertices, counter-clockwise). Whenever \<^verbatim>\<open>draw_full_convex_hull\<close> reports a layout, the
  reported utilization is the sum of the areas of the placed shapes divided by the area
  of the container, times 100; it lies between 0 and 100; and it is 0 exactly when no
  shape was placed.
\<close>

theorem utilization_report:
  assumes W: "0 < x_limit" and H: "0 < y_limit"
    and hull: "\<forall>hull_points. ConvexHull points = Some hull_points \<longrightarrow> convex_ccw hull_points"
    and run: "draw_full_convex_hull max_size shapely ConvexHull points x_limit y_limit = Inr L"
  shows "utilization_percentage L =
           sum_list (map (poly_area shapely) (layout_placed L)) /
             poly_area shapely (layout_container L) * 100
         \<and> 0 \<le> utilization_percentage L \<and> utilization_percentage L \<le> 100
         \<and> (utilization_percentage L = 0) = (layout_placed L = [])"
proof -
  from run obtain hp ps u where h: "ConvexHull points = Some hp"
    and p: "place_shapes max_size shapely (box x_limit y_limit) hp [0, 90, 180, 270] 10 = Inr ps"
    and ut: "utilization shapely ps (box x_limit y_limit) = Inr u"
    and L: "L = \<lparr>layout_container = box x_limit y_limit, layout_placed = ps,
                  utilization_percentage = u\<rparr>"
    by (auto simp: draw_full_convex_hull_def Let_def shapely_def box_def
        split: if_splits option.splits sum.splits)
  from hull h have c: "convex_ccw hp" by simp
  note a = run_areas [OF W H c p]
  from W H have area: "shapely_area (box x_limit y_limit) = x_limit * y_limit"
    and apos: "0 < x_limit * y_limit"
    by (simp_all add: shapely_area_box)
  from ut W H have u: "u = sum_list (map shapely_area ps) / (x_limit * y_limit) * 100"
    by (auto simp: utilization_def shapely_sel area Let_def split: if_splits)
  have nn: "0 \<le> sum_list (map shapely_area ps)"
    using a(2) by (intro sum_list_nonneg) (auto simp: less_imp_le)
  have 1: "0 \<le> u" using nn apos by (simp add: u)
  have 2: "u \<le> 100" using a(1) apos by (simp add: u field_simps)
  have "(u = 0) = (sum_list (map shapely_area ps) = 0)" using W H by (simp add: u)
  also have "\<dots> = (map shapely_area ps = [])"
    using a(2) by (intro sum_list_pos_iff) auto
  finally have 3: "(u = 0) = (ps = [])" by simp
  from u 1 2 3 show ?thesis by (simp add: L shapely_sel area)
qed

theorem utilization_report_witness:
  "(0::real) < 30 \<and> (0::real) < 10 \<and> convex_ccw square5 \<and>
   draw_full_convex_hull max_doubles shapely Some square5 30 10 =
     Inr \<lparr>layout_container = box 30 10,
          layout_placed = [[(0, 0), (5, 0), (5, 5), (0, 5)], [(10, 0), (15, 0), (15, 5), (10, 5)],
                           [(20, 0), (25, 0), (25, 5), (20, 5)]],
          utilization_percentage = 25\<rparr> \<and>
   (25::real) = (25 + 25 + 25) / 300 * 100 \<and> (0::real) \<le> 25 \<and> (25::real) \<le> 100"
proof -
  have W: "(0::real) < 30" and H: "(0::real) < 10" by simp_all
  have hull: "\<forall>hull_points. Some square5 = Some hull_points \<longrightarrow> convex_ccw hull_points"
    using convex_ccw_square5 by simp
  have run: "draw_full_convex_hull max_doubles shapely Some square5 30 10 =
     Inr \<lparr>layout_container = box 30 10,
          layout_placed = [[(0, 0), (5, 0), (5, 5), (0, 5)], [(10, 0), (15, 0), (15, 5), (10, 5)],
                           [(20, 0), (25, 0), (25, 5), (20, 5)]],
          utilization_percentage = 25\<rparr>"
  proof -
    have c: "Polygon shapely [(0, 0), (30, 0), (30, 10), (0, 10)] = box 30 10"
      by (simp add: shapely_def box_def)
    have s: "Polygon shapely square5 = square5" by (simp add: shapely_def)
    have l: "\<not> length square5 < 3" by (simp add: square5_def)
    show ?thesis
      by (simp add: draw_full_convex_hull_def l c s square5_run square5_utilization)
  qed
  from utilization_report [OF W H hull run] W H convex_ccw_square5 run show ?thesis by simp
qed

text \<open>
  Claim C6 (insufficient-input rejection). With fewer than three points,
  \<^verbatim>\<open>draw_full_convex_hull\<close> ends in the error report for too few points, whatever the
  library, the hull computation, the limits and the machine are: no hull, container,
  rotation set or placement is computed, and no layout is produced.
\<close>

theorem insufficient_points_rejected:
  assumes "length points < 3"
  shows "draw_full_convex_hull max_size G ConvexHull points x_limit y_limit =
           Inl InsufficientPointsError"
  using assms by (simp add: draw_full_convex_hull_def)

theorem insufficient_points_rejected_witness:
  "length [(1, 2), (3, 4) :: point] < 3 \<and>
   draw_full_convex_hull max_doubles shapely (\<lambda>pts. None) [(1, 2), (3, 4)] 1000 200 =
     Inl InsufficientPointsError"
  using insufficient_points_rejected [of "[(1, 2), (3, 4)]" max_doubles shapely "\<lambda>pts. None"
      1000 200]
  by simp

text \<open>
  Claim C7 (per-anchor acceptance). The dictionary of rotated shapes lists the angles in
  the order of the angle list, each angle where it first occurs, with the base shape
  rotated by it (for a list without repetition, the keys are the list itself).
  \<^verbatim>\<open>place_shapes\<close> runs the loop over the items of that dictionary once at every anchor,
  in the order of the anchors (and raises when numpy cannot build their ranges). At an anchor the loop appends the translate of the first
  item whose translate can be placed, and nothing after it; when no item can be placed
  the list is unchanged. So at most one shape is added per anchor.
\<close>

theorem per_anchor_acceptance:
  "create_rotated_shapes G shape angles =
     map (\<lambda>angle. (angle, affinity_rotate G shape angle)) (first_occurrences angles)
   \<and> (distinct angles \<longrightarrow> map fst (create_rotated_shapes G shape angles) = angles)
   \<and> (poly_bounds G container = Some b \<longrightarrow>
        place_shapes max_size G container shape angles grid_step =
          map_sum id
            (\<lambda>as. fold (\<lambda>(x, y). try_angles G container x y (create_rotated_shapes G shape angles))
                    as [])
            (anchors max_size b grid_step))
   \<and> try_angles G container x y items placed =
       (case find (\<lambda>(angle, rotated).
                     can_place G (affinity_translate G rotated x y) placed container) items of
          None \<Rightarrow> placed
        | Some (angle, rotated) \<Rightarrow> placed @ [affinity_translate G rotated x y])
   \<and> length (try_angles G container x y items placed) \<le> length placed + 1"
proof (intro conjI impI)
  show items: "create_rotated_shapes G shape angles =
     map (\<lambda>angle. (angle, affinity_rotate G shape angle)) (first_occurrences angles)"
    by (rule create_rotated_shapes_items)
  show "map fst (create_rotated_shapes G shape angles) = angles" if "distinct angles"
    using that by (simp add: items first_occurrences_distinct comp_def)
  show "place_shapes max_size G container shape angles grid_step =
          map_sum id
            (\<lambda>as. fold (\<lambda>(x, y). try_angles G container x y (create_rotated_shapes G shape angles))
                    as [])
            (anchors max_size b grid_step)"
    if "poly_bounds G container = Some b"
    using that by (rule place_shapes_anchors)
  show "try_angles G container x y items placed =
       (case find (\<lambda>(angle, rotated).
                     can_place G (affinity_translate G rotated x y) placed container) items of
          None \<Rightarrow> placed
        | Some (angle, rotated) \<Rightarrow> placed @ [affinity_translate G rotated x y])"
    by (rule try_angles_find)
  show "length (try_angles G container x y items placed) \<le> length placed + 1"
    using try_angles_cases [of G container x y items placed] by auto
qed

theorem per_anchor_acceptance_witness:
  "distinct [0, 90 :: real] \<and>
   poly_bounds shapely (box (3 / 2) (5 / 2)) = Some (0, 0, 3 / 2, 5 / 2) \<and>
   map fst (create_rotated_shapes shapely [(0, 0), (2, 0), (2, 1), (0, 1)] [0, 90]) = [0, 90] \<and>
   try_angles shapely (box (3 / 2) (5 / 2)) 0 (1 / 2)
     (create_rotated_shapes shapely [(0, 0), (2, 0), (2, 1), (0, 1)] [0, 90]) [] =
   [[(3 / 2, 0), (3 / 2, 2), (1 / 2, 2), (1 / 2, 0)]] \<and>
   place_shapes max_doubles shapely (box (3 / 2) (5 / 2)) [(0, 0), (2, 0), (2, 1), (0, 1)]
     [0, 90] (1 / 2) =
   Inr [[(3 / 2, 0), (3 / 2, 2), (1 / 2, 2), (1 / 2, 0)]]"
proof -
  have b: "poly_bounds shapely (box (3 / 2) (5 / 2)) = Some (0, 0, 3 / 2, 5 / 2)"
    by (simp add: shapely_sel box_def)
  have d: "distinct [0, 90 :: real]" by simp
  note t = per_anchor_acceptance [of shapely "[(0, 0), (2, 0), (2, 1), (0, 1)]" "[0, 90]"
      "box (3 / 2) (5 / 2)" "(0, 0, 3 / 2, 5 / 2)" max_doubles "1 / 2" 0 "1 / 2"
      "create_rotated_shapes shapely [(0, 0), (2, 0), (2, 1), (0, 1)] [0, 90]" "[]"]
  from t d have k: "map fst (create_rotated_shapes shapely [(0, 0), (2, 0), (2, 1), (0, 1)] [0, 90])
      = [0, 90]"
    by blast
  have ax: "arange max_doubles 0 (3 / 2) (1 / 2) = Inr [0, 1 / 2, 1]"
    by (simp add: arange_def arange_item_def overflows_def max_doubles_def
        float_round_numeral float_round_half upt_rec)
  have ay: "arange max_doubles 0 (5 / 2) (1 / 2) = Inr [0, 1 / 2, 1, 3 / 2, 2]"
    by (simp add: arange_def arange_item_def overflows_def max_doubles_def
        float_round_numeral float_round_half upt_rec)
  from t b have "place_shapes max_doubles shapely (box (3 / 2) (5 / 2))
        [(0, 0), (2, 0), (2, 1), (0, 1)] [0, 90] (1 / 2) =
      map_sum id
        (\<lambda>as. fold (\<lambda>(x, y). try_angles shapely (box (3 / 2) (5 / 2)) x y
             (create_rotated_shapes shapely [(0, 0), (2, 0), (2, 1), (0, 1)] [0, 90])) as [])
        (anchors max_doubles (0, 0, 3 / 2, 5 / 2) (1 / 2))"
    by blast
  also have "\<dots> = Inr [[(3 / 2, 0), (3 / 2, 2), (1 / 2, 2), (1 / 2, 0)]]"
    unfolding rect_items
    by (simp add: anchors_def ax ay fold_step can_place_def shapely_sel
        shapely_contains_def shapely_intersects_def separating_edge_def
        shapely_translate_def edges_def box_def side_def del: fold.simps)
  finally show ?thesis using b d k rect_anchor by simp
qed

text \<open>
  Claim C8 (rotation identity). In the model of the library, when 0 is among the angles,
  the entry of the rotation set for the angle 0 is the base polygon itself: the same
  vertices, hence the same area and the same centroid.
\<close>

theorem rotation_identity:
  assumes "0 \<in> set angles"
  shows "\<exists>r. map_of (create_rotated_shapes shapely shape angles) 0 = Some r \<and> r = shape \<and>
             poly_area shapely r = poly_area shapely shape \<and>
             shapely_centroid r = shapely_centroid shape"
  using assms by (simp add: create_rotated_shapes_lookup shapely_def shapely_rotate_0)

theorem rotation_identity_witness:
  "0 \<in> set [0, 90, 180, 270 :: real] \<and>
   map_of (create_rotated_shapes shapely unit_square [0, 90, 180, 270]) 0 = Some unit_square"
  using rotation_identity [of "[0, 90, 180, 270]" unit_square] by simp




text \<open>
  Claim C10 (strict pairwise disjointness). Let the library's \<^verbatim>\<open>intersects\<close> hold of any
  two polygons that share a point, boundary points included. Then, for a positive grid
  step and a container that has bounds, whenever numpy builds the ranges of the anchors,
  \<^verbatim>\<open>place_shapes\<close> returns a list in which any two polygons at different positions share
  no point at all. No other run returns.
\<close>

theorem place_shapes_disjoint:
  assumes "0 < grid_step" and "poly_bounds G container = Some b"
    and "anchors max_size b grid_step = Inr as"
    and "\<forall>a c. pts a \<inter> pts c \<noteq> {} \<longrightarrow> poly_intersects G a c"
  shows "\<exists>ps. place_shapes max_size G container shape angles grid_step = Inr ps \<and>
     (\<forall>i < length ps. \<forall>j < length ps. i \<noteq> j \<longrightarrow> pts (ps ! i) \<inter> pts (ps ! j) = {})"
proof -
  from place_shapes_returns [OF assms(2) assms(3)] obtain ps where
    ps: "place_shapes max_size G container shape angles grid_step = Inr ps" by blast
  have "pts (ps ! i) \<inter> pts (ps ! j) = {}"
    if "i < length ps" "j < length ps" "i \<noteq> j" for i j
    using place_shapes_apart [OF ps] assms(4) that by (rule apart_pts_disjoint)
  with ps show ?thesis by blast
qed

theorem place_shapes_disjoint_witness:
  "(0::real) < 1 \<and> poly_bounds shapely (box 3 1) = Some (0, 0, 3, 1) \<and>
   anchors max_doubles (0, 0, 3, 1) 1 = Inr [(0, 0), (1, 0), (2, 0)] \<and>
   (\<forall>a c. region a \<inter> region c = {} \<or> poly_intersects shapely a c) \<and>
   place_shapes max_doubles shapely (box 3 1) unit_square [0] 1 =
     Inr [square_at 0 0, square_at 2 0] \<and>
   region (square_at 0 0) \<inter> region (square_at 2 0) = {}"
proof -
  have c: "\<forall>a c. region a \<inter> region c \<noteq> {} \<longrightarrow> poly_intersects shapely a c"
    using shapely_intersects_sound by (simp add: shapely_sel)
  have b: "poly_bounds shapely (box 3 1) = Some (0, 0, 3, 1)"
    by (simp add: shapely_sel box_def)
  have s: "(0::real) < 1" by simp
  from place_shapes_disjoint [where G = shapely and pts = region
      and shape = unit_square and angles = "[0]", OF s b anchors_small c]
  have "\<forall>i < 2. \<forall>j < 2. i \<noteq> j \<longrightarrow>
          region ([square_at 0 0, square_at 2 0] ! i) \<inter>
          region ([square_at 0 0, square_at 2 0] ! j) = {}"
    by (simp add: small_run)
  from this [rule_format, of 0 1] c b small_run anchors_small show ?thesis by auto
qed

end
